theory Spec2Isabelle
  imports Main "HOL-Library.AList" "HOL-Library.Word" "HOL-Library.Sublist"
begin

section \<open>The tap event messages\<close>

text \<open>
  The protocol-buffer messages that \<^verbatim>\<open>RecvEvents\<close> decodes and \<^verbatim>\<open>ProcessEvents\<close>
  correlates. A Go pointer to a message is an \<open>option\<close>: \<open>None\<close> is \<^verbatim>\<open>nil\<close>. Only the
  fields this repository reads are kept.
\<close>

datatype IPAddress = Ipv4 "32 word" | Ipv6 "64 word" "64 word"

record TcpAddress =
  Ip :: "IPAddress option"
  Port :: "32 word"

record StreamId =
  sid_base :: "32 word"
  sid_stream :: "64 word"

type_synonym headers = "(string \<times> string) list"

record RequestInit =
  ri_Id :: "StreamId option"
  ri_Method :: string
  ri_Scheme :: string
  ri_Authority :: string
  ri_Path :: string
  ri_Headers :: headers

record ResponseInit =
  rsi_Id :: "StreamId option"
  rsi_HttpStatus :: "32 word"
  rsi_Headers :: headers

record ResponseEnd =
  rse_Id :: "StreamId option"
  rse_SinceRequestInit :: "int option"
  rse_SinceResponseInit :: "int option"
  rse_Trailers :: headers

text \<open>
  The \<^verbatim>\<open>oneof\<close> of an HTTP tap event: each wrapper holds a pointer to its message.
\<close>

datatype HttpEvent =
  Http_RequestInit "RequestInit option"
| Http_ResponseInit "ResponseInit option"
| Http_ResponseEnd "ResponseEnd option"

datatype ProxyDirection = UNKNOWN | INBOUND | OUTBOUND

text \<open>
  \<open>Http\<close> is what \<^verbatim>\<open>event.GetHttp().GetEvent()\<close> yields: \<open>None\<close> when the event is not
  an HTTP event or its \<^verbatim>\<open>oneof\<close> is unset.
\<close>

record TapEvent =
  Source :: "TcpAddress option"
  Destination :: "TcpAddress option"
  SourceMeta :: headers
  DestinationMeta :: headers
  RouteMeta :: headers
  Direction :: ProxyDirection
  Http :: "HttpEvent option"

text \<open>The generated getters are nil-safe: on a nil receiver they return the zero value.\<close>

definition GetSource :: "TapEvent option \<Rightarrow> TcpAddress option" where
  "GetSource event = (case event of None \<Rightarrow> None | Some e \<Rightarrow> Source e)"

definition GetDestination :: "TapEvent option \<Rightarrow> TcpAddress option" where
  "GetDestination event = (case event of None \<Rightarrow> None | Some e \<Rightarrow> Destination e)"

definition GetHttpEvent :: "TapEvent option \<Rightarrow> HttpEvent option" where
  "GetHttpEvent event = (case event of None \<Rightarrow> None | Some e \<Rightarrow> Http e)"

definition RequestInit_GetId :: "RequestInit option \<Rightarrow> StreamId option" where
  "RequestInit_GetId m = (case m of None \<Rightarrow> None | Some r \<Rightarrow> ri_Id r)"

definition ResponseInit_GetId :: "ResponseInit option \<Rightarrow> StreamId option" where
  "ResponseInit_GetId m = (case m of None \<Rightarrow> None | Some r \<Rightarrow> rsi_Id r)"

definition ResponseEnd_GetId :: "ResponseEnd option \<Rightarrow> StreamId option" where
  "ResponseEnd_GetId m = (case m of None \<Rightarrow> None | Some r \<Rightarrow> rse_Id r)"

section \<open>The correlator's data\<close>

record Stream =
  Event :: "TapEvent option"
  ReqInit :: "RequestInit option"
  RspInit :: "ResponseInit option"
  RspEnd :: "ResponseEnd option"
  TimestampMs :: "64 word"

record streamID =
  src :: string
  dst :: string
  stream :: "64 word"

text \<open>
  Reading the field \<^verbatim>\<open>.Stream\<close> through a nil \<^verbatim>\<open>*StreamId\<close> is a nil pointer
  dereference: the Go runtime panics.
\<close>

datatype panic = NilPointerDereference

definition IdStream :: "StreamId option \<Rightarrow> panic + 64 word" where
  "IdStream p = (case p of None \<Rightarrow> Inl NilPointerDereference | Some i \<Rightarrow> Inr (sid_stream i))"

text \<open>The two \<^verbatim>\<open>log.Warnf\<close> lines, with the identity they print.\<close>

datatype warning =
  UnknownResponseInit streamID
| UnknownResponseEnd streamID

text \<open>
  What \<^verbatim>\<open>ProcessEvents\<close> owns and writes: the map \<^verbatim>\<open>outstandingRequests\<close> (an
  association list, so that the number of entries per key is a property to prove and not a
  consequence of the type), everything sent on \<^verbatim>\<open>requestCh\<close> in order, and the
  warnings logged. A send on a full channel waits for the receiver; the model keeps what
  is sent and in which order, not the waiting.
\<close>

record correlator =
  outstandingRequests :: "(streamID \<times> Stream) list"
  requestCh :: "Stream list"
  warnings :: "warning list"

definition newCorrelator :: correlator where
  "newCorrelator = \<lparr>outstandingRequests = [], requestCh = [], warnings = []\<rparr>"

section \<open>ProcessEvents\<close>

text \<open>
  The body of \<^verbatim>\<open>case event := <-eventCh\<close>. The first argument is
  \<^verbatim>\<open>addr.PublicAddressToString\<close>, a function of the linkerd2 library.
\<close>

definition handleEvent ::
  "(TcpAddress option \<Rightarrow> string) \<Rightarrow> TapEvent option \<Rightarrow> correlator \<Rightarrow> panic + correlator" where
  "handleEvent PublicAddressToString event c =
    (let id = \<lparr>src = PublicAddressToString (GetSource event),
               dst = PublicAddressToString (GetDestination event),
               stream = 0\<rparr>
     in case GetHttpEvent event of
          Some (Http_RequestInit ri) \<Rightarrow>
            (case IdStream (RequestInit_GetId ri) of
               Inl p \<Rightarrow> Inl p
             | Inr s \<Rightarrow>
                 Inr (c\<lparr>outstandingRequests :=
                          AList.update (id\<lparr>stream := s\<rparr>)
                            \<lparr>Event = event, ReqInit = ri, RspInit = None, RspEnd = None,
                             TimestampMs = 0\<rparr>
                            (outstandingRequests c)\<rparr>))
        | Some (Http_ResponseInit rsi) \<Rightarrow>
            (case IdStream (ResponseInit_GetId rsi) of
               Inl p \<Rightarrow> Inl p
             | Inr s \<Rightarrow>
                 (case map_of (outstandingRequests c) (id\<lparr>stream := s\<rparr>) of
                    Some req \<Rightarrow>
                      Inr (c\<lparr>outstandingRequests :=
                               AList.update (id\<lparr>stream := s\<rparr>) (req\<lparr>RspInit := rsi\<rparr>)
                                 (outstandingRequests c)\<rparr>)
                  | None \<Rightarrow>
                      Inr (c\<lparr>warnings := warnings c @ [UnknownResponseInit (id\<lparr>stream := s\<rparr>)]\<rparr>)))
        | Some (Http_ResponseEnd rse) \<Rightarrow>
            (case IdStream (ResponseEnd_GetId rse) of
               Inl p \<Rightarrow> Inl p
             | Inr s \<Rightarrow>
                 (case map_of (outstandingRequests c) (id\<lparr>stream := s\<rparr>) of
                    Some req \<Rightarrow> Inr (c\<lparr>requestCh := requestCh c @ [req\<lparr>RspEnd := rse\<rparr>]\<rparr>)
                  | None \<Rightarrow>
                      Inr (c\<lparr>warnings := warnings c @ [UnknownResponseEnd (id\<lparr>stream := s\<rparr>)]\<rparr>)))
        | None \<Rightarrow> Inr c)"

text \<open>
  One round of the \<^verbatim>\<open>select\<close>: either the \<^verbatim>\<open>done\<close> channel delivers, or
  \<^verbatim>\<open>eventCh\<close> delivers an event. The loop is run on the sequence of rounds the scheduler
  chose; when the sequence is used up the goroutine is blocked in the \<^verbatim>\<open>select\<close>.
\<close>

datatype selected = Done | Recv "TapEvent option"

datatype outcome = Returned | Blocked | Panicked panic

fun ProcessLoop ::
  "(TcpAddress option \<Rightarrow> string) \<Rightarrow> selected list \<Rightarrow> correlator \<Rightarrow>
     outcome \<times> correlator \<times> selected list" where
  "ProcessLoop A [] c = (Blocked, c, [])"
| "ProcessLoop A (Done # rest) c = (Returned, c, rest)"
| "ProcessLoop A (Recv event # rest) c =
     (case handleEvent A event c of
        Inl p \<Rightarrow> (Panicked p, c, rest)
      | Inr c' \<Rightarrow> ProcessLoop A rest c')"

definition ProcessEvents ::
  "(TcpAddress option \<Rightarrow> string) \<Rightarrow> selected list \<Rightarrow> outcome \<times> correlator \<times> selected list" where
  "ProcessEvents A rounds = ProcessLoop A rounds newCorrelator"

text \<open>
  The StreamIdentity of an event: the key \<^verbatim>\<open>id\<close> that \<open>handleEvent\<close> builds for it. An
  event has none when it is not one of the three HTTP events or when its message or the
  message's \<^verbatim>\<open>Id\<close> is nil.
\<close>

definition eventID :: "(TcpAddress option \<Rightarrow> string) \<Rightarrow> TapEvent option \<Rightarrow> streamID option" where
  "eventID A event =
    (case GetHttpEvent event of
       None \<Rightarrow> None
     | Some h \<Rightarrow>
         (case (case h of
                  Http_RequestInit m \<Rightarrow> RequestInit_GetId m
                | Http_ResponseInit m \<Rightarrow> ResponseInit_GetId m
                | Http_ResponseEnd m \<Rightarrow> ResponseEnd_GetId m) of
            None \<Rightarrow> None
          | Some i \<Rightarrow>
              Some \<lparr>src = A (GetSource event), dst = A (GetDestination event),
                    stream = sid_stream i\<rparr>))"

text \<open>The live set: the keys of \<^verbatim>\<open>outstandingRequests\<close>.\<close>

definition liveSet :: "correlator \<Rightarrow> streamID set" where
  "liveSet c = fst ` set (outstandingRequests c)"

text \<open>
  What one event does to the entry under its own key, and what it sends, as functions of
  that entry alone.
\<close>

definition nextEntry :: "TapEvent option \<Rightarrow> Stream option \<Rightarrow> Stream option" where
  "nextEntry event entry =
    (case GetHttpEvent event of
       Some (Http_RequestInit ri) \<Rightarrow>
         Some \<lparr>Event = event, ReqInit = ri, RspInit = None, RspEnd = None, TimestampMs = 0\<rparr>
     | Some (Http_ResponseInit rsi) \<Rightarrow> map_option (\<lambda>req. req\<lparr>RspInit := rsi\<rparr>) entry
     | _ \<Rightarrow> entry)"

definition emitted :: "TapEvent option \<Rightarrow> Stream option \<Rightarrow> Stream list" where
  "emitted event entry =
    (case GetHttpEvent event of
       Some (Http_ResponseEnd rse) \<Rightarrow>
         (case entry of Some req \<Rightarrow> [req\<lparr>RspEnd := rse\<rparr>] | None \<Rightarrow> [])
     | _ \<Rightarrow> [])"

definition isRequestInit :: "TapEvent option \<Rightarrow> bool" where
  "isRequestInit event =
    (case GetHttpEvent event of Some (Http_RequestInit ri) \<Rightarrow> True | _ \<Rightarrow> False)"

definition isResponseEnd :: "TapEvent option \<Rightarrow> bool" where
  "isResponseEnd event =
    (case GetHttpEvent event of Some (Http_ResponseEnd rse) \<Rightarrow> True | _ \<Rightarrow> False)"

definition responseEndOf :: "TapEvent option \<Rightarrow> ResponseEnd option" where
  "responseEndOf event =
    (case GetHttpEvent event of Some (Http_ResponseEnd rse) \<Rightarrow> rse | _ \<Rightarrow> None)"

text \<open>
  The position \<open>k\<close> of an event sequence completes an exchange: the event there is a
  ResponseEnd, and a RequestInit with the same StreamIdentity arrived before it.
\<close>

definition completesAt ::
  "(TcpAddress option \<Rightarrow> string) \<Rightarrow> TapEvent option list \<Rightarrow> nat \<Rightarrow> bool" where
  "completesAt A evs k =
    (isResponseEnd (evs ! k) \<and> eventID A (evs ! k) \<noteq> None \<and>
     (\<exists>e \<in> set (take k evs). isRequestInit e \<and> eventID A e = eventID A (evs ! k)))"

section \<open>RecvEvents\<close>

text \<open>
  An error returned by \<^verbatim>\<open>protohttp.FromByteStreamToProtocolBuffers\<close>: the sentinel
  \<^verbatim>\<open>io.EOF\<close>, or any other error with its message.
\<close>

datatype error = EOF | DecodeError string

fun Error :: "error \<Rightarrow> string" where
  "Error EOF = ''EOF''"
| "Error (DecodeError msg) = msg"

text \<open>\<^verbatim>\<open>strings.HasSuffix\<close>, as the Go library computes it.\<close>

definition HasSuffix :: "string \<Rightarrow> string \<Rightarrow> bool" where
  "HasSuffix s suf =
    (length suf \<le> length s \<and> drop (length s - length suf) s = suf)"

text \<open>
  What \<^verbatim>\<open>RecvEvents\<close> writes: the events sent on \<^verbatim>\<open>eventCh\<close>, the lines printed, and
  the values sent on \<^verbatim>\<open>closing\<close>.
\<close>

record decoder =
  eventCh :: "TapEvent option list"
  stdout :: "string list"
  closing :: "unit list"

definition newDecoder :: decoder where
  "newDecoder = \<lparr>eventCh = [], stdout = [], closing = []\<rparr>"

text \<open>
  The loop is run on the results of the successive decoding calls on the byte stream:
  \<open>Inr\<close> an event, \<open>Inl\<close> an error. When the results are used up the goroutine is blocked
  in the read. The first argument is the constant \<^verbatim>\<open>pkg.ErrClosedResponseBody\<close> of the
  linkerd2 library.
\<close>

fun RecvLoop ::
  "string \<Rightarrow> (error + TapEvent) list \<Rightarrow> decoder \<Rightarrow>
     outcome \<times> decoder \<times> (error + TapEvent) list" where
  "RecvLoop ErrClosedResponseBody [] d = (Blocked, d, [])"
| "RecvLoop ErrClosedResponseBody (Inl err # rest) d =
     (Returned,
      (if err = EOF then d\<lparr>stdout := stdout d @ [''Tap stream terminated'']\<rparr>
       else if \<not> HasSuffix (Error err) ErrClosedResponseBody
         then d\<lparr>stdout := stdout d @ [Error err]\<rparr>
       else d)\<lparr>closing := closing d @ [()]\<rparr>,
      rest)"
| "RecvLoop ErrClosedResponseBody (Inr event # rest) d =
     RecvLoop ErrClosedResponseBody rest (d\<lparr>eventCh := eventCh d @ [Some event]\<rparr>)"

definition RecvEvents ::
  "string \<Rightarrow> (error + TapEvent) list \<Rightarrow> outcome \<times> decoder \<times> (error + TapEvent) list" where
  "RecvEvents ErrClosedResponseBody reads = RecvLoop ErrClosedResponseBody reads newDecoder"

section \<open>Concrete events\<close>

text \<open>
  Events for running the model: HTTP events with nil addresses, told apart by their stream
  number. \<open>nilAddressToString\<close> stands for \<^verbatim>\<open>addr.PublicAddressToString\<close> on them: the
  library prints the nil address as \<^verbatim>\<open>:0\<close>.
\<close>

definition nilAddressToString :: "TcpAddress option \<Rightarrow> string" where
  "nilAddressToString a = '':0''"

definition httpEvent :: "HttpEvent \<Rightarrow> TapEvent option" where
  "httpEvent h =
    Some \<lparr>Source = None, Destination = None, SourceMeta = [], DestinationMeta = [],
          RouteMeta = [], Direction = INBOUND, Http = Some h\<rparr>"

definition requestInit :: "64 word \<Rightarrow> string \<Rightarrow> RequestInit" where
  "requestInit s path =
    \<lparr>ri_Id = Some \<lparr>sid_base = 0, sid_stream = s\<rparr>, ri_Method = ''GET'',
     ri_Scheme = ''http'', ri_Authority = ''web'', ri_Path = path, ri_Headers = []\<rparr>"

definition responseInit :: "64 word \<Rightarrow> 32 word \<Rightarrow> ResponseInit" where
  "responseInit s status =
    \<lparr>rsi_Id = Some \<lparr>sid_base = 0, sid_stream = s\<rparr>, rsi_HttpStatus = status,
     rsi_Headers = []\<rparr>"

definition responseEnd :: "64 word \<Rightarrow> int \<Rightarrow> ResponseEnd" where
  "responseEnd s elapsed =
    \<lparr>rse_Id = Some \<lparr>sid_base = 0, sid_stream = s\<rparr>, rse_SinceRequestInit = Some elapsed,
     rse_SinceResponseInit = Some 0, rse_Trailers = []\<rparr>"

definition reqEv :: "64 word \<Rightarrow> string \<Rightarrow> TapEvent option" where
  "reqEv s path = httpEvent (Http_RequestInit (Some (requestInit s path)))"

definition rspEv :: "64 word \<Rightarrow> 32 word \<Rightarrow> TapEvent option" where
  "rspEv s status = httpEvent (Http_ResponseInit (Some (responseInit s status)))"

definition endEv :: "64 word \<Rightarrow> int \<Rightarrow> TapEvent option" where
  "endEv s elapsed = httpEvent (Http_ResponseEnd (Some (responseEnd s elapsed)))"

text \<open>
  Response events as the decoder passes them on when the \<^verbatim>\<open>id\<close> field is absent from
  the wire: the message is there, its \<^verbatim>\<open>Id\<close> is nil.
\<close>

definition rspEvNoId :: "TapEvent option" where
  "rspEvNoId =
    httpEvent (Http_ResponseInit (Some \<lparr>rsi_Id = None, rsi_HttpStatus = 200, rsi_Headers = []\<rparr>))"

definition endEvNoId :: "TapEvent option" where
  "endEvNoId =
    httpEvent (Http_ResponseEnd (Some \<lparr>rse_Id = None, rse_SinceRequestInit = Some 5,
      rse_SinceResponseInit = Some 0, rse_Trailers = []\<rparr>))"

definition nilID :: "64 word \<Rightarrow> streamID" where
  "nilID s = \<lparr>src = '':0'', dst = '':0'', stream = s\<rparr>"

section \<open>One identity's events on their own\<close>

text \<open>
  The records sent by a sequence of events of one StreamIdentity, and the entry the
  sequence leaves, from the entry it finds.
\<close>

fun sentBy :: "TapEvent option list \<Rightarrow> Stream option \<Rightarrow> Stream list" where
  "sentBy [] entry = []"
| "sentBy (e # es) entry = emitted e entry @ sentBy es (nextEntry e entry)"

fun finalEntry :: "TapEvent option list \<Rightarrow> Stream option \<Rightarrow> Stream option" where
  "finalEntry [] entry = entry"
| "finalEntry (e # es) entry = finalEntry es (nextEntry e entry)"

section \<open>How one event acts\<close>

lemma handleEvent_char:
  assumes "eventID A e = Some i"
  shows "\<exists>c'. handleEvent A e c = Inr c' \<and>
           requestCh c' = requestCh c @ emitted e (map_of (outstandingRequests c) i) \<and>
           map_of (outstandingRequests c') =
             (map_of (outstandingRequests c))(i := nextEntry e (map_of (outstandingRequests c) i))"
  using assms
  by (auto simp: handleEvent_def eventID_def IdStream_def emitted_def nextEntry_def
        AList.update_conv' Let_def
      split: option.splits HttpEvent.splits)

lemma handleEvent_RequestInit:
  assumes "GetHttpEvent e = Some (Http_RequestInit ri)" "eventID A e = Some i"
  shows "handleEvent A e c =
    Inr (c\<lparr>outstandingRequests :=
            AList.update i \<lparr>Event = e, ReqInit = ri, RspInit = None, RspEnd = None, TimestampMs = 0\<rparr>
              (outstandingRequests c)\<rparr>)"
  using assms
  by (auto simp: handleEvent_def eventID_def IdStream_def Let_def split: option.splits)

lemma handleEvent_ResponseInit:
  assumes "GetHttpEvent e = Some (Http_ResponseInit rsi)" "eventID A e = Some i"
  shows "handleEvent A e c =
    (case map_of (outstandingRequests c) i of
       Some req \<Rightarrow> Inr (c\<lparr>outstandingRequests := AList.update i (req\<lparr>RspInit := rsi\<rparr>) (outstandingRequests c)\<rparr>)
     | None \<Rightarrow> Inr (c\<lparr>warnings := warnings c @ [UnknownResponseInit i]\<rparr>))"
  using assms
  by (auto simp: handleEvent_def eventID_def IdStream_def Let_def split: option.splits)

lemma handleEvent_ResponseEnd:
  assumes "GetHttpEvent e = Some (Http_ResponseEnd rse)" "eventID A e = Some i"
  shows "handleEvent A e c =
    (case map_of (outstandingRequests c) i of
       Some req \<Rightarrow> Inr (c\<lparr>requestCh := requestCh c @ [req\<lparr>RspEnd := rse\<rparr>]\<rparr>)
     | None \<Rightarrow> Inr (c\<lparr>warnings := warnings c @ [UnknownResponseEnd i]\<rparr>))"
  using assms
  by (auto simp: handleEvent_def eventID_def IdStream_def Let_def split: option.splits)

lemma handleEvent_other:
  assumes "GetHttpEvent e = None"
  shows "handleEvent A e c = Inr c"
  using assms by (simp add: handleEvent_def)

lemma handleEvent_panic:
  assumes "GetHttpEvent e \<noteq> None" "eventID A e = None"
  shows "handleEvent A e c = Inl NilPointerDereference"
  using assms
  by (auto simp: handleEvent_def eventID_def IdStream_def Let_def split: option.splits HttpEvent.splits)

subsection \<open>The live set\<close>

lemma map_of_eq_None_liveSet: "map_of (outstandingRequests c) i = None \<longleftrightarrow> i \<notin> liveSet c"
  by (simp add: liveSet_def map_of_eq_None_iff)

lemma liveSet_map_of: "i \<in> liveSet c \<Longrightarrow> \<exists>req. map_of (outstandingRequests c) i = Some req"
  using map_of_eq_None_liveSet [of c i] by auto

lemma liveSet_dom: "liveSet c = dom (map_of (outstandingRequests c))"
  by (simp add: liveSet_def dom_map_of_conv_image_fst)

lemma liveSet_update [simp]:
  "liveSet (c\<lparr>outstandingRequests := AList.update k v (outstandingRequests c)\<rparr>) =
     insert k (liveSet c)"
  by (simp add: liveSet_def AList.dom_update)

lemma liveSet_requestCh [simp]: "liveSet (c\<lparr>requestCh := q\<rparr>) = liveSet c"
  by (simp add: liveSet_def)

lemma liveSet_warnings [simp]: "liveSet (c\<lparr>warnings := w\<rparr>) = liveSet c"
  by (simp add: liveSet_def)

lemma handleEvent_ResponseEnd_live:
  assumes "GetHttpEvent e = Some (Http_ResponseEnd rse)" "eventID A e = Some i" "i \<in> liveSet c"
  shows "\<exists>req. map_of (outstandingRequests c) i = Some req \<and>
           handleEvent A e c = Inr (c\<lparr>requestCh := requestCh c @ [req\<lparr>RspEnd := rse\<rparr>]\<rparr>)"
proof -
  from liveSet_map_of [OF assms(3)] obtain req
    where req: "map_of (outstandingRequests c) i = Some req" by blast
  then have "handleEvent A e c = Inr (c\<lparr>requestCh := requestCh c @ [req\<lparr>RspEnd := rse\<rparr>]\<rparr>)"
    using handleEvent_ResponseEnd [OF assms(1) assms(2), of c] by simp
  with req show ?thesis by blast
qed

lemma handleEvent_liveSet_mono:
  "handleEvent A e c = Inr c' \<Longrightarrow> liveSet c \<subseteq> liveSet c'"
  by (auto simp: handleEvent_def Let_def
      split: option.splits HttpEvent.splits sum.splits)

lemma handleEvent_distinct:
  "handleEvent A e c = Inr c' \<Longrightarrow> distinct (map fst (outstandingRequests c)) \<Longrightarrow>
     distinct (map fst (outstandingRequests c'))"
  by (auto simp: handleEvent_def Let_def AList.distinct_update
      split: option.splits HttpEvent.splits sum.splits)

lemma dom_nextEntry:
  "dom (m(i := nextEntry e (m i))) = dom m \<union> (if isRequestInit e then {i} else {})"
  by (auto simp: nextEntry_def isRequestInit_def split: option.splits HttpEvent.splits if_splits)

lemma handleEvent_liveSet:
  assumes "handleEvent A e c = Inr c'"
  shows "liveSet c' = liveSet c \<union> {i. isRequestInit e \<and> eventID A e = Some i}"
proof (cases "eventID A e")
  case None
  show ?thesis
  proof (cases "GetHttpEvent e = None")
    case True
    then have "c' = c" using assms by (simp add: handleEvent_other)
    with None show ?thesis by simp
  next
    case False
    with None assms show ?thesis by (simp add: handleEvent_panic)
  qed
next
  case (Some i)
  from handleEvent_char [OF Some, of c] assms
  have "map_of (outstandingRequests c') =
      (map_of (outstandingRequests c))(i := nextEntry e (map_of (outstandingRequests c) i))"
    by auto
  then have "liveSet c' =
      dom ((map_of (outstandingRequests c))(i := nextEntry e (map_of (outstandingRequests c) i)))"
    by (simp only: liveSet_dom)
  then have "liveSet c' = liveSet c \<union> (if isRequestInit e then {i} else {})"
    by (simp only: dom_nextEntry liveSet_dom)
  with Some show ?thesis by auto
qed

subsection \<open>What is sent\<close>

lemma map_RspEnd_emitted:
  "map RspEnd (emitted e entry) =
     (if isResponseEnd e \<and> entry \<noteq> None then [responseEndOf e] else [])"
  by (auto simp: emitted_def isResponseEnd_def responseEndOf_def
      split: option.splits HttpEvent.splits)

lemma handleEvent_RspEnds:
  assumes "handleEvent A e c = Inr c'"
  shows "map RspEnd (requestCh c') =
     map RspEnd (requestCh c) @
       (if isResponseEnd e \<and> (\<exists>i\<in>liveSet c. eventID A e = Some i) then [responseEndOf e] else [])"
proof (cases "eventID A e")
  case None
  show ?thesis
  proof (cases "GetHttpEvent e = None")
    case True
    then have "c' = c" using assms by (simp add: handleEvent_other)
    with None show ?thesis by simp
  next
    case False
    with None assms show ?thesis by (simp add: handleEvent_panic)
  qed
next
  case (Some i)
  from handleEvent_char [OF Some, of c] assms
  have "requestCh c' = requestCh c @ emitted e (map_of (outstandingRequests c) i)"
    by auto
  then show ?thesis
    using Some by (auto simp: map_RspEnd_emitted map_of_eq_None_liveSet)
qed

lemma handleEvent_agree:
  assumes "map_of (outstandingRequests c1) = map_of (outstandingRequests c2)"
  shows "(\<exists>p. handleEvent A e c1 = Inl p \<and> handleEvent A e c2 = Inl p) \<or>
         (\<exists>c1' c2' out. handleEvent A e c1 = Inr c1' \<and> handleEvent A e c2 = Inr c2' \<and>
            requestCh c1' = requestCh c1 @ out \<and> requestCh c2' = requestCh c2 @ out \<and>
            map_of (outstandingRequests c1') = map_of (outstandingRequests c2'))"
proof (cases "GetHttpEvent e = None")
  case True
  then have "handleEvent A e c1 = Inr c1" "handleEvent A e c2 = Inr c2"
    by (simp_all add: handleEvent_other)
  then have "\<exists>out. handleEvent A e c1 = Inr c1 \<and> handleEvent A e c2 = Inr c2 \<and>
            requestCh c1 = requestCh c1 @ out \<and> requestCh c2 = requestCh c2 @ out"
    by simp
  with assms show ?thesis by blast
next
  case False
  show ?thesis
  proof (cases "eventID A e")
    case None
    with False show ?thesis by (simp add: handleEvent_panic)
  next
    case (Some i)
    from handleEvent_char [OF Some, of c1] handleEvent_char [OF Some, of c2] assms
    show ?thesis by (metis (no_types, lifting))
  qed
qed

section \<open>Runs of the loop\<close>

lemma ProcessLoop_append:
  "ProcessLoop A (map Recv evs) c = (Blocked, c1, []) \<Longrightarrow>
     ProcessLoop A (map Recv evs @ rounds) c = ProcessLoop A rounds c1"
  by (induction evs arbitrary: c) (auto split: sum.splits)

lemma ProcessLoop_snoc:
  "ProcessLoop A (map Recv (evs @ [e])) c0 = (Blocked, c, []) \<Longrightarrow>
     \<exists>c1. ProcessLoop A (map Recv evs) c0 = (Blocked, c1, []) \<and> handleEvent A e c1 = Inr c"
proof (induction evs arbitrary: c0)
  case Nil
  then show ?case by (auto split: sum.splits)
next
  case (Cons x evs)
  from Cons.prems obtain d where
    step: "handleEvent A x c0 = Inr d"
    and run: "ProcessLoop A (map Recv (evs @ [e])) d = (Blocked, c, [])"
    by (auto split: sum.splits)
  from Cons.IH [OF run] step show ?case by auto
qed

lemma ProcessLoop_total:
  assumes "\<forall>e\<in>set evs. GetHttpEvent e \<noteq> None \<longrightarrow> eventID A e \<noteq> None"
  shows "\<exists>c. ProcessLoop A (map Recv evs) c0 = (Blocked, c, [])"
  using assms
proof (induction evs arbitrary: c0)
  case Nil
  then show ?case by simp
next
  case (Cons e evs)
  have "\<exists>c1. handleEvent A e c0 = Inr c1"
  proof (cases "GetHttpEvent e = None")
    case True
    then show ?thesis by (simp add: handleEvent_other)
  next
    case False
    with Cons.prems obtain i where "eventID A e = Some i" by auto
    from handleEvent_char [OF this, of c0] show ?thesis by blast
  qed
  then obtain c1 where step: "handleEvent A e c0 = Inr c1" by blast
  have "\<forall>e\<in>set evs. GetHttpEvent e \<noteq> None \<longrightarrow> eventID A e \<noteq> None"
    using Cons.prems by simp
  from Cons.IH [OF this, of c1] step show ?case by simp
qed

lemma ProcessLoop_liveSet_mono:
  "ProcessLoop A rounds c = (st, c', rest) \<Longrightarrow> liveSet c \<subseteq> liveSet c'"
proof (induction A rounds c rule: ProcessLoop.induct)
  case (3 A event rest c)
  then show ?case
    by (auto split: sum.splits dest: handleEvent_liveSet_mono)
qed auto

lemma ProcessLoop_distinct:
  "ProcessLoop A rounds c = (st, c', rest) \<Longrightarrow> distinct (map fst (outstandingRequests c)) \<Longrightarrow>
     distinct (map fst (outstandingRequests c'))"
proof (induction A rounds c rule: ProcessLoop.induct)
  case (3 A event rest c)
  then show ?case
    by (auto split: sum.splits dest: handleEvent_distinct)
qed auto

lemma ProcessLoop_liveSet:
  "ProcessLoop A (map Recv evs) c0 = (Blocked, c, []) \<Longrightarrow>
     liveSet c = liveSet c0 \<union> {i. \<exists>e\<in>set evs. isRequestInit e \<and> eventID A e = Some i}"
proof (induction evs arbitrary: c0)
  case Nil
  then show ?case by simp
next
  case (Cons e evs)
  from Cons.prems obtain c1 where
    step: "handleEvent A e c0 = Inr c1" and run: "ProcessLoop A (map Recv evs) c1 = (Blocked, c, [])"
    by (auto split: sum.splits)
  from Cons.IH [OF run] handleEvent_liveSet [OF step] show ?case by auto
qed

lemma ProcessLoop_agree:
  assumes "map_of (outstandingRequests c1) = map_of (outstandingRequests c2)"
  shows "\<exists>st c1' c2' rest out.
           ProcessLoop A rounds c1 = (st, c1', rest) \<and>
           ProcessLoop A rounds c2 = (st, c2', rest) \<and>
           requestCh c1' = requestCh c1 @ out \<and> requestCh c2' = requestCh c2 @ out \<and>
           map_of (outstandingRequests c1') = map_of (outstandingRequests c2')"
  using assms
proof (induction rounds arbitrary: c1 c2)
  case Nil
  then show ?case by simp
next
  case (Cons r rounds)
  show ?case
  proof (cases r)
    case Done
    with Cons.prems show ?thesis by simp
  next
    case (Recv e)
    from handleEvent_agree [OF Cons.prems, of A e] show ?thesis
    proof
      assume "\<exists>p. handleEvent A e c1 = Inl p \<and> handleEvent A e c2 = Inl p"
      with Recv Cons.prems show ?thesis by auto
    next
      assume "\<exists>c1' c2' out. handleEvent A e c1 = Inr c1' \<and> handleEvent A e c2 = Inr c2' \<and>
            requestCh c1' = requestCh c1 @ out \<and> requestCh c2' = requestCh c2 @ out \<and>
            map_of (outstandingRequests c1') = map_of (outstandingRequests c2')"
      then obtain d1 d2 out where
        s1: "handleEvent A e c1 = Inr d1" and s2: "handleEvent A e c2 = Inr d2"
        and o1: "requestCh d1 = requestCh c1 @ out" and o2: "requestCh d2 = requestCh c2 @ out"
        and m: "map_of (outstandingRequests d1) = map_of (outstandingRequests d2)"
        by blast
      from Cons.IH [OF m] obtain st c1' c2' rest out' where
        "ProcessLoop A rounds d1 = (st, c1', rest)" "ProcessLoop A rounds d2 = (st, c2', rest)"
        "requestCh c1' = requestCh d1 @ out'" "requestCh c2' = requestCh d2 @ out'"
        "map_of (outstandingRequests c1') = map_of (outstandingRequests c2')"
        by blast
      then have "ProcessLoop A (r # rounds) c1 = (st, c1', rest) \<and>
           ProcessLoop A (r # rounds) c2 = (st, c2', rest) \<and>
           requestCh c1' = requestCh c1 @ (out @ out') \<and>
           requestCh c2' = requestCh c2 @ (out @ out') \<and>
           map_of (outstandingRequests c1') = map_of (outstandingRequests c2')"
        using Recv s1 s2 o1 o2 by simp
      then show ?thesis by blast
    qed
  qed
qed

subsection \<open>Events of one identity, and interleavings\<close>

lemma solo_run:
  assumes "\<forall>e\<in>set xs. eventID A e = Some a"
  shows "\<exists>c'. ProcessLoop A (map Recv xs) c = (Blocked, c', []) \<and>
           requestCh c' = requestCh c @ sentBy xs (map_of (outstandingRequests c) a) \<and>
           map_of (outstandingRequests c') =
             (map_of (outstandingRequests c))(a := finalEntry xs (map_of (outstandingRequests c) a))"
  using assms
proof (induction xs arbitrary: c)
  case Nil
  then show ?case by simp
next
  case (Cons x xs)
  then have idx: "eventID A x = Some a" by simp
  from handleEvent_char [OF idx, of c] obtain c1 where
    step: "handleEvent A x c = Inr c1"
    and out1: "requestCh c1 = requestCh c @ emitted x (map_of (outstandingRequests c) a)"
    and map1: "map_of (outstandingRequests c1) =
      (map_of (outstandingRequests c))(a := nextEntry x (map_of (outstandingRequests c) a))"
    by blast
  have rest: "\<forall>e\<in>set xs. eventID A e = Some a" using Cons.prems by simp
  from Cons.IH [OF rest, of c1] obtain c' where
    run: "ProcessLoop A (map Recv xs) c1 = (Blocked, c', [])"
    and out: "requestCh c' = requestCh c1 @ sentBy xs (map_of (outstandingRequests c1) a)"
    and mp: "map_of (outstandingRequests c') =
      (map_of (outstandingRequests c1))(a := finalEntry xs (map_of (outstandingRequests c1) a))"
    by blast
  have "ProcessLoop A (map Recv (x # xs)) c = (Blocked, c', [])"
    using step run by simp
  moreover have "requestCh c' = requestCh c @ sentBy (x # xs) (map_of (outstandingRequests c) a)"
    using out out1 map1 by simp
  moreover have "map_of (outstandingRequests c') =
      (map_of (outstandingRequests c))(a := finalEntry (x # xs) (map_of (outstandingRequests c) a))"
    using mp map1 by simp
  ultimately show ?case by blast
qed

lemma append_in_shuffles_left:
  "zs \<in> shuffles xs ys \<Longrightarrow> p @ zs \<in> shuffles (p @ xs) ys"
  by (induction p) (simp_all add: Cons_in_shuffles_leftI)

lemma append_in_shuffles_right:
  "zs \<in> shuffles xs ys \<Longrightarrow> p @ zs \<in> shuffles xs (p @ ys)"
  by (induction p) (simp_all add: Cons_in_shuffles_rightI)

lemma shuffled_run:
  assumes "a \<noteq> b"
    and "\<forall>e\<in>set xs. eventID A e = Some a" and "\<forall>e\<in>set ys. eventID A e = Some b"
    and "zs \<in> shuffles xs ys"
  shows "\<exists>c' ez. ProcessLoop A (map Recv zs) c = (Blocked, c', []) \<and>
           requestCh c' = requestCh c @ ez \<and>
           ez \<in> shuffles (sentBy xs (map_of (outstandingRequests c) a))
                          (sentBy ys (map_of (outstandingRequests c) b)) \<and>
           map_of (outstandingRequests c') =
             (map_of (outstandingRequests c))
               (a := finalEntry xs (map_of (outstandingRequests c) a),
                b := finalEntry ys (map_of (outstandingRequests c) b))"
  using assms(2-4)
proof (induction zs arbitrary: xs ys c)
  case Nil
  then show ?case by simp
next
  case (Cons z zs)
  from Cons.prems(3) consider
    (left) xs' where "xs = z # xs'" "zs \<in> shuffles xs' ys"
  | (right) ys' where "ys = z # ys'" "zs \<in> shuffles xs ys'"
    by (auto simp: Cons_in_shuffles_iff neq_Nil_conv)
  then show ?case
  proof cases
    case left
    then have idz: "eventID A z = Some a" using Cons.prems(1) by simp
    from handleEvent_char [OF idz, of c] obtain c1 where
      step: "handleEvent A z c = Inr c1"
      and out1: "requestCh c1 = requestCh c @ emitted z (map_of (outstandingRequests c) a)"
      and map1: "map_of (outstandingRequests c1) =
        (map_of (outstandingRequests c))(a := nextEntry z (map_of (outstandingRequests c) a))"
      by blast
    have px: "\<forall>e\<in>set xs'. eventID A e = Some a" using Cons.prems(1) left(1) by simp
    from Cons.IH [OF px Cons.prems(2) left(2), of c1] obtain c' ez where
      run: "ProcessLoop A (map Recv zs) c1 = (Blocked, c', [])"
      and out: "requestCh c' = requestCh c1 @ ez"
      and sh: "ez \<in> shuffles (sentBy xs' (map_of (outstandingRequests c1) a))
                              (sentBy ys (map_of (outstandingRequests c1) b))"
      and mp: "map_of (outstandingRequests c') =
             (map_of (outstandingRequests c1))
               (a := finalEntry xs' (map_of (outstandingRequests c1) a),
                b := finalEntry ys (map_of (outstandingRequests c1) b))"
      by blast
    let ?p = "emitted z (map_of (outstandingRequests c) a)"
    have "ProcessLoop A (map Recv (z # zs)) c = (Blocked, c', [])"
      using step run by simp
    moreover have "requestCh c' = requestCh c @ (?p @ ez)"
      using out out1 by simp
    moreover have "?p @ ez \<in> shuffles (sentBy xs (map_of (outstandingRequests c) a))
                          (sentBy ys (map_of (outstandingRequests c) b))"
      using append_in_shuffles_left [OF sh, of ?p] map1 left(1) assms(1) by simp
    moreover have "map_of (outstandingRequests c') =
             (map_of (outstandingRequests c))
               (a := finalEntry xs (map_of (outstandingRequests c) a),
                b := finalEntry ys (map_of (outstandingRequests c) b))"
      using mp map1 left(1) assms(1) by simp
    ultimately show ?thesis by blast
  next
    case right
    then have idz: "eventID A z = Some b" using Cons.prems(2) by simp
    from handleEvent_char [OF idz, of c] obtain c1 where
      step: "handleEvent A z c = Inr c1"
      and out1: "requestCh c1 = requestCh c @ emitted z (map_of (outstandingRequests c) b)"
      and map1: "map_of (outstandingRequests c1) =
        (map_of (outstandingRequests c))(b := nextEntry z (map_of (outstandingRequests c) b))"
      by blast
    have py: "\<forall>e\<in>set ys'. eventID A e = Some b" using Cons.prems(2) right(1) by simp
    from Cons.IH [OF Cons.prems(1) py right(2), of c1] obtain c' ez where
      run: "ProcessLoop A (map Recv zs) c1 = (Blocked, c', [])"
      and out: "requestCh c' = requestCh c1 @ ez"
      and sh: "ez \<in> shuffles (sentBy xs (map_of (outstandingRequests c1) a))
                              (sentBy ys' (map_of (outstandingRequests c1) b))"
      and mp: "map_of (outstandingRequests c') =
             (map_of (outstandingRequests c1))
               (a := finalEntry xs (map_of (outstandingRequests c1) a),
                b := finalEntry ys' (map_of (outstandingRequests c1) b))"
      by blast
    let ?p = "emitted z (map_of (outstandingRequests c) b)"
    have "ProcessLoop A (map Recv (z # zs)) c = (Blocked, c', [])"
      using step run by simp
    moreover have "requestCh c' = requestCh c @ (?p @ ez)"
      using out out1 by simp
    moreover have "?p @ ez \<in> shuffles (sentBy xs (map_of (outstandingRequests c) a))
                          (sentBy ys (map_of (outstandingRequests c) b))"
      using append_in_shuffles_right [OF sh, of ?p] map1 right(1) assms(1) by simp
    moreover have "map_of (outstandingRequests c') =
             (map_of (outstandingRequests c))
               (a := finalEntry xs (map_of (outstandingRequests c) a),
                b := finalEntry ys (map_of (outstandingRequests c) b))"
      using mp map1 right(1) assms(1) by (simp add: fun_upd_twist)
    ultimately show ?thesis by blast
  qed
qed

lemma nextEntry_owner:
  assumes "eventID A x = Some a" and "\<forall>r. entry = Some r \<longrightarrow> eventID A (Event r) = Some a"
  shows "\<forall>r. nextEntry x entry = Some r \<longrightarrow> eventID A (Event r) = Some a"
  using assms
  by (auto simp: nextEntry_def split: option.splits HttpEvent.splits)

lemma emitted_owner:
  assumes "\<forall>r. entry = Some r \<longrightarrow> eventID A (Event r) = Some a"
  shows "\<forall>r\<in>set (emitted x entry). eventID A (Event r) = Some a"
  using assms
  by (auto simp: emitted_def split: option.splits HttpEvent.splits)

lemma sentBy_owner:
  assumes "\<forall>e\<in>set xs. eventID A e = Some a"
    and "\<forall>r. entry = Some r \<longrightarrow> eventID A (Event r) = Some a"
  shows "\<forall>r\<in>set (sentBy xs entry). eventID A (Event r) = Some a"
  using assms
proof (induction xs arbitrary: entry)
  case Nil
  then show ?case by simp
next
  case (Cons x xs)
  have idx: "eventID A x = Some a" using Cons.prems(1) by simp
  have rest: "\<forall>e\<in>set xs. eventID A e = Some a" using Cons.prems(1) by simp
  from Cons.IH [OF rest nextEntry_owner [OF idx Cons.prems(2)]]
    emitted_owner [OF Cons.prems(2), of x]
  show ?case by auto
qed

lemma filter_shuffles_left:
  assumes "zs \<in> shuffles xs ys" and "\<forall>x\<in>set xs. P x" and "\<forall>y\<in>set ys. \<not> P y"
  shows "filter P zs = xs"
proof -
  have "filter P zs \<in> filter P ` shuffles xs ys" using assms(1) by blast
  then have "filter P zs \<in> shuffles (filter P xs) (filter P ys)"
    by (simp add: filter_shuffles)
  moreover have "filter P xs = xs" using assms(2) by (simp add: filter_id_conv)
  moreover have "filter P ys = []" using assms(3) by (simp add: filter_empty_conv)
  ultimately show ?thesis by simp
qed

lemma filter_shuffles_right:
  assumes "zs \<in> shuffles xs ys" and "\<forall>x\<in>set xs. \<not> P x" and "\<forall>y\<in>set ys. P y"
  shows "filter P zs = ys"
  using filter_shuffles_left [of zs ys xs P] assms by (simp add: shuffles_commutes)

subsection \<open>Completing positions\<close>

lemma completesAt_snoc_before:
  "k < length evs \<Longrightarrow> completesAt A (evs @ [e]) k = completesAt A evs k"
  by (simp add: completesAt_def nth_append)

lemma completesAt_snoc_last:
  "completesAt A (evs @ [e]) (length evs) \<longleftrightarrow>
     isResponseEnd e \<and> eventID A e \<noteq> None \<and>
     (\<exists>e'\<in>set evs. isRequestInit e' \<and> eventID A e' = eventID A e)"
  by (simp add: completesAt_def)

lemma completions_snoc:
  "map (\<lambda>k. responseEndOf ((evs @ [e]) ! k))
       (filter (completesAt A (evs @ [e])) [0..<length (evs @ [e])]) =
   map (\<lambda>k. responseEndOf (evs ! k)) (filter (completesAt A evs) [0..<length evs]) @
     (if completesAt A (evs @ [e]) (length evs) then [responseEndOf e] else [])"
proof -
  have f: "filter (completesAt A (evs @ [e])) [0..<length evs] =
           filter (completesAt A evs) [0..<length evs]"
    by (rule filter_cong) (simp_all add: completesAt_snoc_before)
  have m: "map (\<lambda>k. responseEndOf ((evs @ [e]) ! k)) (filter (completesAt A evs) [0..<length evs]) =
           map (\<lambda>k. responseEndOf (evs ! k)) (filter (completesAt A evs) [0..<length evs])"
    by (rule map_cong) (simp_all add: nth_append)
  show ?thesis using f m by simp
qed

lemma RspEnds_of_run:
  assumes "ProcessEvents A (map Recv evs) = (Blocked, c, [])"
  shows "map RspEnd (requestCh c) =
     map (\<lambda>k. responseEndOf (evs ! k)) (filter (completesAt A evs) [0..<length evs])"
  using assms unfolding ProcessEvents_def
proof (induction evs arbitrary: c rule: rev_induct)
  case Nil
  then show ?case by (auto simp: newCorrelator_def)
next
  case (snoc e evs)
  from ProcessLoop_snoc [OF snoc.prems] obtain c1 where
    run: "ProcessLoop A (map Recv evs) newCorrelator = (Blocked, c1, [])"
    and step: "handleEvent A e c1 = Inr c"
    by blast
  have live: "liveSet c1 = {i. \<exists>e'\<in>set evs. isRequestInit e' \<and> eventID A e' = Some i}"
    using ProcessLoop_liveSet [OF run] by (simp add: liveSet_def newCorrelator_def)
  have last: "completesAt A (evs @ [e]) (length evs) \<longleftrightarrow>
      isResponseEnd e \<and> (\<exists>i\<in>liveSet c1. eventID A e = Some i)"
    unfolding completesAt_snoc_last live by auto
  show ?case
    unfolding completions_snoc handleEvent_RspEnds [OF step] snoc.IH [OF run] last
    by simp
qed

section \<open>The concrete events\<close>

lemmas fixture_defs = nilAddressToString_def httpEvent_def requestInit_def responseInit_def
  responseEnd_def reqEv_def rspEv_def endEv_def nilID_def GetHttpEvent_def GetSource_def
  GetDestination_def RequestInit_GetId_def ResponseInit_GetId_def ResponseEnd_GetId_def
  eventID_def

lemma handle_reqEv:
  "handleEvent nilAddressToString (reqEv s p) c =
     Inr (c\<lparr>outstandingRequests :=
            AList.update (nilID s)
              \<lparr>Event = reqEv s p, ReqInit = Some (requestInit s p), RspInit = None,
               RspEnd = None, TimestampMs = 0\<rparr>
              (outstandingRequests c)\<rparr>)"
  by (rule handleEvent_RequestInit) (simp_all add: fixture_defs)

lemma handle_rspEv:
  "handleEvent nilAddressToString (rspEv s n) c =
    (case map_of (outstandingRequests c) (nilID s) of
       Some req \<Rightarrow>
         Inr (c\<lparr>outstandingRequests :=
                AList.update (nilID s) (req\<lparr>RspInit := Some (responseInit s n)\<rparr>)
                  (outstandingRequests c)\<rparr>)
     | None \<Rightarrow> Inr (c\<lparr>warnings := warnings c @ [UnknownResponseInit (nilID s)]\<rparr>))"
  by (rule handleEvent_ResponseInit) (simp_all add: fixture_defs)

lemma handle_endEv:
  "handleEvent nilAddressToString (endEv s n) c =
    (case map_of (outstandingRequests c) (nilID s) of
       Some req \<Rightarrow> Inr (c\<lparr>requestCh := requestCh c @ [req\<lparr>RspEnd := Some (responseEnd s n)\<rparr>]\<rparr>)
     | None \<Rightarrow> Inr (c\<lparr>warnings := warnings c @ [UnknownResponseEnd (nilID s)]\<rparr>))"
  by (rule handleEvent_ResponseEnd) (simp_all add: fixture_defs)

lemma nilID_eq [simp]: "nilID s = nilID t \<longleftrightarrow> s = t"
  by (simp add: nilID_def)

lemma isResponseEnd_fixtures [simp]:
  "isResponseEnd (endEv s n)" "\<not> isResponseEnd (reqEv s p)" "\<not> isResponseEnd (rspEv s k)"
  by (simp_all add: isResponseEnd_def fixture_defs)

lemma isRequestInit_fixtures [simp]:
  "isRequestInit (reqEv s p)" "\<not> isRequestInit (endEv s n)" "\<not> isRequestInit (rspEv s k)"
  by (simp_all add: isRequestInit_def fixture_defs)

lemma eventID_fixtures [simp]:
  "eventID nilAddressToString (reqEv s p) = Some (nilID s)"
  "eventID nilAddressToString (rspEv s k) = Some (nilID s)"
  "eventID nilAddressToString (endEv s n) = Some (nilID s)"
  by (simp_all add: fixture_defs)

lemma responseEndOf_endEv [simp]: "responseEndOf (endEv s n) = Some (responseEnd s n)"
  by (simp add: responseEndOf_def fixture_defs)

section \<open>The correlator: one exchange\<close>

text \<open>
  C1. A RequestInit, then a ResponseInit, then a ResponseEnd, all three with one
  StreamIdentity: the correlator sends exactly one record on \<^verbatim>\<open>requestCh\<close>, and its
  \<open>ReqInit\<close>, \<open>RspInit\<close> and \<open>RspEnd\<close> fields are the payloads of those three events.
\<close>

theorem C1_triple_emits_one_record:
  assumes "GetHttpEvent e1 = Some (Http_RequestInit ri)"
    and "GetHttpEvent e2 = Some (Http_ResponseInit rsi)"
    and "GetHttpEvent e3 = Some (Http_ResponseEnd rse)"
    and "eventID A e1 = Some i" and "eventID A e2 = Some i" and "eventID A e3 = Some i"
  shows "ProcessEvents A [Recv e1, Recv e2, Recv e3] =
     (Blocked,
      \<lparr>outstandingRequests =
         [(i, \<lparr>Event = e1, ReqInit = ri, RspInit = rsi, RspEnd = None, TimestampMs = 0\<rparr>)],
       requestCh = [\<lparr>Event = e1, ReqInit = ri, RspInit = rsi, RspEnd = rse, TimestampMs = 0\<rparr>],
       warnings = []\<rparr>,
      [])"
  by (simp add: ProcessEvents_def newCorrelator_def
      handleEvent_RequestInit [OF assms(1) assms(4)]
      handleEvent_ResponseInit [OF assms(2) assms(5)]
      handleEvent_ResponseEnd [OF assms(3) assms(6)])

theorem C1_triple_emits_one_record_witness:
  "GetHttpEvent (reqEv 1 ''/foo'') = Some (Http_RequestInit (Some (requestInit 1 ''/foo''))) \<and>
   GetHttpEvent (rspEv 1 200) = Some (Http_ResponseInit (Some (responseInit 1 200))) \<and>
   GetHttpEvent (endEv 1 5) = Some (Http_ResponseEnd (Some (responseEnd 1 5))) \<and>
   eventID nilAddressToString (reqEv 1 ''/foo'') = Some (nilID 1) \<and>
   eventID nilAddressToString (rspEv 1 200) = Some (nilID 1) \<and>
   eventID nilAddressToString (endEv 1 5) = Some (nilID 1) \<and>
   ProcessEvents nilAddressToString [Recv (reqEv 1 ''/foo''), Recv (rspEv 1 200), Recv (endEv 1 5)] =
     (Blocked,
      \<lparr>outstandingRequests =
         [(nilID 1, \<lparr>Event = reqEv 1 ''/foo'', ReqInit = Some (requestInit 1 ''/foo''),
                     RspInit = Some (responseInit 1 200), RspEnd = None, TimestampMs = 0\<rparr>)],
       requestCh = [\<lparr>Event = reqEv 1 ''/foo'', ReqInit = Some (requestInit 1 ''/foo''),
                     RspInit = Some (responseInit 1 200), RspEnd = Some (responseEnd 1 5),
                     TimestampMs = 0\<rparr>],
       warnings = []\<rparr>,
      [])"
proof -
  have h1: "GetHttpEvent (reqEv 1 ''/foo'') = Some (Http_RequestInit (Some (requestInit 1 ''/foo'')))"
    by (simp add: fixture_defs)
  have h2: "GetHttpEvent (rspEv 1 200) = Some (Http_ResponseInit (Some (responseInit 1 200)))"
    by (simp add: fixture_defs)
  have h3: "GetHttpEvent (endEv 1 5) = Some (Http_ResponseEnd (Some (responseEnd 1 5)))"
    by (simp add: fixture_defs)
  have h4: "eventID nilAddressToString (reqEv 1 ''/foo'') = Some (nilID 1)"
    by (simp add: fixture_defs)
  have h5: "eventID nilAddressToString (rspEv 1 200) = Some (nilID 1)"
    by (simp add: fixture_defs)
  have h6: "eventID nilAddressToString (endEv 1 5) = Some (nilID 1)"
    by (simp add: fixture_defs)
  from C1_triple_emits_one_record [OF h1 h2 h3 h4 h5 h6] h1 h2 h3 h4 h5 h6
  show ?thesis by simp
qed

text \<open>
  C10. A RequestInit followed by a ResponseEnd with the same StreamIdentity and no
  ResponseInit in between: the correlator sends a record whose \<open>RspInit\<close> is nil; the
  ResponseEnd is not dropped.
\<close>

theorem C10_end_without_response_init:
  assumes "GetHttpEvent e1 = Some (Http_RequestInit ri)"
    and "GetHttpEvent e3 = Some (Http_ResponseEnd rse)"
    and "eventID A e1 = Some i" and "eventID A e3 = Some i"
  shows "ProcessEvents A [Recv e1, Recv e3] =
     (Blocked,
      \<lparr>outstandingRequests =
         [(i, \<lparr>Event = e1, ReqInit = ri, RspInit = None, RspEnd = None, TimestampMs = 0\<rparr>)],
       requestCh = [\<lparr>Event = e1, ReqInit = ri, RspInit = None, RspEnd = rse, TimestampMs = 0\<rparr>],
       warnings = []\<rparr>,
      [])"
  by (simp add: ProcessEvents_def newCorrelator_def
      handleEvent_RequestInit [OF assms(1) assms(3)]
      handleEvent_ResponseEnd [OF assms(2) assms(4)])

theorem C10_end_without_response_init_witness:
  "GetHttpEvent (reqEv 1 ''/foo'') = Some (Http_RequestInit (Some (requestInit 1 ''/foo''))) \<and>
   GetHttpEvent (endEv 1 5) = Some (Http_ResponseEnd (Some (responseEnd 1 5))) \<and>
   eventID nilAddressToString (reqEv 1 ''/foo'') = Some (nilID 1) \<and>
   eventID nilAddressToString (endEv 1 5) = Some (nilID 1) \<and>
   ProcessEvents nilAddressToString [Recv (reqEv 1 ''/foo''), Recv (endEv 1 5)] =
     (Blocked,
      \<lparr>outstandingRequests =
         [(nilID 1, \<lparr>Event = reqEv 1 ''/foo'', ReqInit = Some (requestInit 1 ''/foo''),
                     RspInit = None, RspEnd = None, TimestampMs = 0\<rparr>)],
       requestCh = [\<lparr>Event = reqEv 1 ''/foo'', ReqInit = Some (requestInit 1 ''/foo''),
                     RspInit = None, RspEnd = Some (responseEnd 1 5), TimestampMs = 0\<rparr>],
       warnings = []\<rparr>,
      [])"
proof -
  have h1: "GetHttpEvent (reqEv 1 ''/foo'') = Some (Http_RequestInit (Some (requestInit 1 ''/foo'')))"
    by (simp add: fixture_defs)
  have h3: "GetHttpEvent (endEv 1 5) = Some (Http_ResponseEnd (Some (responseEnd 1 5)))"
    by (simp add: fixture_defs)
  have h4: "eventID nilAddressToString (reqEv 1 ''/foo'') = Some (nilID 1)"
    by (simp add: fixture_defs)
  have h6: "eventID nilAddressToString (endEv 1 5) = Some (nilID 1)"
    by (simp add: fixture_defs)
  from C10_end_without_response_init [OF h1 h3 h4 h6] h1 h3 h4 h6
  show ?thesis by simp
qed

section \<open>The live set at ResponseEnd\<close>

text \<open>
  C2, the removal at ResponseEnd: there is none. After a RequestInit and a ResponseEnd for
  one identity the record has been sent, and the identity is still in the live set.
\<close>

theorem C2_counterexample:
  "ProcessEvents nilAddressToString [Recv (reqEv 1 ''/foo''), Recv (endEv 1 5)] =
     (Blocked,
      \<lparr>outstandingRequests =
         [(nilID 1, \<lparr>Event = reqEv 1 ''/foo'', ReqInit = Some (requestInit 1 ''/foo''),
                     RspInit = None, RspEnd = None, TimestampMs = 0\<rparr>)],
       requestCh = [\<lparr>Event = reqEv 1 ''/foo'', ReqInit = Some (requestInit 1 ''/foo''),
                     RspInit = None, RspEnd = Some (responseEnd 1 5), TimestampMs = 0\<rparr>],
       warnings = []\<rparr>,
      []) \<and>
   nilID 1 \<in> liveSet (fst (snd (ProcessEvents nilAddressToString
                                   [Recv (reqEv 1 ''/foo''), Recv (endEv 1 5)])))"
  by (simp add: ProcessEvents_def newCorrelator_def handle_reqEv handle_endEv liveSet_def)

text \<open>
  C2, with the live set kept. In every state the correlator reaches, \<^verbatim>\<open>outstandingRequests\<close>
  holds at most one record per StreamIdentity; and a ResponseEnd for an identity in the live
  set sends the stored record with the ResponseEnd attached and leaves
  \<^verbatim>\<open>outstandingRequests\<close> as it is: the identity is not removed.
\<close>

theorem C2_live_set_kept_at_ResponseEnd:
  assumes "ProcessEvents A rounds = (st, c, rest)"
  shows "distinct (map fst (outstandingRequests c)) \<and>
    (\<forall>e rse i. GetHttpEvent e = Some (Http_ResponseEnd rse) \<and> eventID A e = Some i \<and> i \<in> liveSet c \<longrightarrow>
       (\<exists>req c'. map_of (outstandingRequests c) i = Some req \<and>
          handleEvent A e c = Inr c' \<and>
          requestCh c' = requestCh c @ [req\<lparr>RspEnd := rse\<rparr>] \<and>
          outstandingRequests c' = outstandingRequests c \<and> i \<in> liveSet c'))"
proof
  show "distinct (map fst (outstandingRequests c))"
    using ProcessLoop_distinct [of A rounds newCorrelator st c rest] assms
    by (simp add: ProcessEvents_def newCorrelator_def)
next
  show "\<forall>e rse i. GetHttpEvent e = Some (Http_ResponseEnd rse) \<and> eventID A e = Some i \<and> i \<in> liveSet c \<longrightarrow>
       (\<exists>req c'. map_of (outstandingRequests c) i = Some req \<and>
          handleEvent A e c = Inr c' \<and>
          requestCh c' = requestCh c @ [req\<lparr>RspEnd := rse\<rparr>] \<and>
          outstandingRequests c' = outstandingRequests c \<and> i \<in> liveSet c')"
  proof (intro allI impI)
    fix e rse i
    assume h: "GetHttpEvent e = Some (Http_ResponseEnd rse) \<and> eventID A e = Some i \<and> i \<in> liveSet c"
    then obtain req where "map_of (outstandingRequests c) i = Some req"
      and "handleEvent A e c = Inr (c\<lparr>requestCh := requestCh c @ [req\<lparr>RspEnd := rse\<rparr>]\<rparr>)"
      using handleEvent_ResponseEnd_live [of e rse A i c] by blast
    then show "\<exists>req c'. map_of (outstandingRequests c) i = Some req \<and>
          handleEvent A e c = Inr c' \<and>
          requestCh c' = requestCh c @ [req\<lparr>RspEnd := rse\<rparr>] \<and>
          outstandingRequests c' = outstandingRequests c \<and> i \<in> liveSet c'"
      using h by (intro exI [of _ req] exI [of _ "c\<lparr>requestCh := requestCh c @ [req\<lparr>RspEnd := rse\<rparr>]\<rparr>"]) simp
  qed
qed

theorem C2_live_set_kept_at_ResponseEnd_witness:
  "ProcessEvents nilAddressToString [Recv (reqEv 1 ''/foo'')] =
     (Blocked,
      \<lparr>outstandingRequests =
         [(nilID 1, \<lparr>Event = reqEv 1 ''/foo'', ReqInit = Some (requestInit 1 ''/foo''),
                     RspInit = None, RspEnd = None, TimestampMs = 0\<rparr>)],
       requestCh = [], warnings = []\<rparr>,
      []) \<and>
   GetHttpEvent (endEv 1 5) = Some (Http_ResponseEnd (Some (responseEnd 1 5))) \<and>
   eventID nilAddressToString (endEv 1 5) = Some (nilID 1) \<and>
   nilID 1 \<in> liveSet
     \<lparr>outstandingRequests =
         [(nilID 1, \<lparr>Event = reqEv 1 ''/foo'', ReqInit = Some (requestInit 1 ''/foo''),
                     RspInit = None, RspEnd = None, TimestampMs = 0\<rparr>)],
       requestCh = [], warnings = []\<rparr> \<and>
   handleEvent nilAddressToString (endEv 1 5)
     \<lparr>outstandingRequests =
         [(nilID 1, \<lparr>Event = reqEv 1 ''/foo'', ReqInit = Some (requestInit 1 ''/foo''),
                     RspInit = None, RspEnd = None, TimestampMs = 0\<rparr>)],
       requestCh = [], warnings = []\<rparr> =
     Inr \<lparr>outstandingRequests =
         [(nilID 1, \<lparr>Event = reqEv 1 ''/foo'', ReqInit = Some (requestInit 1 ''/foo''),
                     RspInit = None, RspEnd = None, TimestampMs = 0\<rparr>)],
       requestCh = [\<lparr>Event = reqEv 1 ''/foo'', ReqInit = Some (requestInit 1 ''/foo''),
                     RspInit = None, RspEnd = Some (responseEnd 1 5), TimestampMs = 0\<rparr>],
       warnings = []\<rparr>"
proof -
  let ?c = "\<lparr>outstandingRequests =
         [(nilID 1, \<lparr>Event = reqEv 1 ''/foo'', ReqInit = Some (requestInit 1 ''/foo''),
                     RspInit = None, RspEnd = None, TimestampMs = 0\<rparr>)],
       requestCh = [], warnings = []\<rparr>"
  have h: "ProcessEvents nilAddressToString [Recv (reqEv 1 ''/foo'')] = (Blocked, ?c, [])"
    by (simp add: ProcessEvents_def newCorrelator_def handle_reqEv)
  have h2: "GetHttpEvent (endEv 1 5) = Some (Http_ResponseEnd (Some (responseEnd 1 5)))"
    by (simp add: fixture_defs)
  have h3: "eventID nilAddressToString (endEv 1 5) = Some (nilID 1)"
    by (simp add: fixture_defs)
  have h4: "nilID 1 \<in> liveSet ?c" by (simp add: liveSet_def)
  from C2_live_set_kept_at_ResponseEnd [OF h] h2 h3 h4
  obtain req c' where "map_of (outstandingRequests ?c) (nilID 1) = Some req"
    and "handleEvent nilAddressToString (endEv 1 5) ?c = Inr c'"
    and "requestCh c' = requestCh ?c @ [req\<lparr>RspEnd := Some (responseEnd 1 5)\<rparr>]"
    and "outstandingRequests c' = outstandingRequests ?c"
    by blast
  then have "handleEvent nilAddressToString (endEv 1 5) ?c =
     Inr \<lparr>outstandingRequests =
         [(nilID 1, \<lparr>Event = reqEv 1 ''/foo'', ReqInit = Some (requestInit 1 ''/foo''),
                     RspInit = None, RspEnd = None, TimestampMs = 0\<rparr>)],
       requestCh = [\<lparr>Event = reqEv 1 ''/foo'', ReqInit = Some (requestInit 1 ''/foo''),
                     RspInit = None, RspEnd = Some (responseEnd 1 5), TimestampMs = 0\<rparr>],
       warnings = []\<rparr>"
    by (auto simp: handle_endEv)
  with h h2 h3 h4 show ?thesis by simp
qed

text \<open>
  C9. A ResponseEnd for an identity in the live set sends a record and leaves the
  identity in the live set. After any further events, a second ResponseEnd with the same
  StreamIdentity sends one more record; it is not dropped as unknown.
\<close>

theorem C9_identity_stays_after_ResponseEnd:
  assumes "i \<in> liveSet c"
    and "GetHttpEvent e = Some (Http_ResponseEnd rse)" and "eventID A e = Some i"
    and "ProcessLoop A (Recv e # map Recv evs) c = (Blocked, c1, [])"
    and "GetHttpEvent e' = Some (Http_ResponseEnd rse')" and "eventID A e' = Some i"
  shows "(\<exists>req. handleEvent A e c = Inr (c\<lparr>requestCh := requestCh c @ [req\<lparr>RspEnd := rse\<rparr>]\<rparr>) \<and>
                i \<in> liveSet (c\<lparr>requestCh := requestCh c @ [req\<lparr>RspEnd := rse\<rparr>]\<rparr>)) \<and>
         i \<in> liveSet c1 \<and>
         (\<exists>req. handleEvent A e' c1 =
                  Inr (c1\<lparr>requestCh := requestCh c1 @ [req\<lparr>RspEnd := rse'\<rparr>]\<rparr>))"
proof -
  have first: "\<exists>req. handleEvent A e c = Inr (c\<lparr>requestCh := requestCh c @ [req\<lparr>RspEnd := rse\<rparr>]\<rparr>) \<and>
                i \<in> liveSet (c\<lparr>requestCh := requestCh c @ [req\<lparr>RspEnd := rse\<rparr>]\<rparr>)"
    using handleEvent_ResponseEnd_live [OF assms(2) assms(3) assms(1)] assms(1)
    by auto
  have live1: "i \<in> liveSet c1"
    using ProcessLoop_liveSet_mono [OF assms(4)] assms(1) by blast
  from handleEvent_ResponseEnd_live [OF assms(5) assms(6) live1] first live1
  show ?thesis by blast
qed

theorem C9_identity_stays_after_ResponseEnd_witness:
  "nilID 1 \<in> liveSet \<lparr>outstandingRequests =
        [(nilID 1, \<lparr>Event = reqEv 1 ''/a'', ReqInit = Some (requestInit 1 ''/a''),
                    RspInit = None, RspEnd = None, TimestampMs = 0\<rparr>)],
      requestCh = [], warnings = []\<rparr> \<and>
   GetHttpEvent (endEv 1 5) = Some (Http_ResponseEnd (Some (responseEnd 1 5))) \<and>
   eventID nilAddressToString (endEv 1 5) = Some (nilID 1) \<and>
   ProcessLoop nilAddressToString (Recv (endEv 1 5) # map Recv [reqEv 2 ''/b''])
     \<lparr>outstandingRequests =
        [(nilID 1, \<lparr>Event = reqEv 1 ''/a'', ReqInit = Some (requestInit 1 ''/a''),
                    RspInit = None, RspEnd = None, TimestampMs = 0\<rparr>)],
      requestCh = [], warnings = []\<rparr> =
     (Blocked,
      \<lparr>outstandingRequests =
        [(nilID 1, \<lparr>Event = reqEv 1 ''/a'', ReqInit = Some (requestInit 1 ''/a''),
                    RspInit = None, RspEnd = None, TimestampMs = 0\<rparr>),
         (nilID 2, \<lparr>Event = reqEv 2 ''/b'', ReqInit = Some (requestInit 2 ''/b''),
                    RspInit = None, RspEnd = None, TimestampMs = 0\<rparr>)],
       requestCh = [\<lparr>Event = reqEv 1 ''/a'', ReqInit = Some (requestInit 1 ''/a''),
                    RspInit = None, RspEnd = Some (responseEnd 1 5), TimestampMs = 0\<rparr>],
       warnings = []\<rparr>, []) \<and>
   GetHttpEvent (endEv 1 9) = Some (Http_ResponseEnd (Some (responseEnd 1 9))) \<and>
   eventID nilAddressToString (endEv 1 9) = Some (nilID 1) \<and>
   (\<exists>req. handleEvent nilAddressToString (endEv 1 9)
      \<lparr>outstandingRequests =
        [(nilID 1, \<lparr>Event = reqEv 1 ''/a'', ReqInit = Some (requestInit 1 ''/a''),
                    RspInit = None, RspEnd = None, TimestampMs = 0\<rparr>),
         (nilID 2, \<lparr>Event = reqEv 2 ''/b'', ReqInit = Some (requestInit 2 ''/b''),
                    RspInit = None, RspEnd = None, TimestampMs = 0\<rparr>)],
       requestCh = [\<lparr>Event = reqEv 1 ''/a'', ReqInit = Some (requestInit 1 ''/a''),
                    RspInit = None, RspEnd = Some (responseEnd 1 5), TimestampMs = 0\<rparr>],
       warnings = []\<rparr> =
     Inr \<lparr>outstandingRequests =
        [(nilID 1, \<lparr>Event = reqEv 1 ''/a'', ReqInit = Some (requestInit 1 ''/a''),
                    RspInit = None, RspEnd = None, TimestampMs = 0\<rparr>),
         (nilID 2, \<lparr>Event = reqEv 2 ''/b'', ReqInit = Some (requestInit 2 ''/b''),
                    RspInit = None, RspEnd = None, TimestampMs = 0\<rparr>)],
       requestCh = [\<lparr>Event = reqEv 1 ''/a'', ReqInit = Some (requestInit 1 ''/a''),
                    RspInit = None, RspEnd = Some (responseEnd 1 5), TimestampMs = 0\<rparr>,
                    req\<lparr>RspEnd := Some (responseEnd 1 9)\<rparr>],
       warnings = []\<rparr>)"
proof -
  let ?c = "\<lparr>outstandingRequests =
        [(nilID 1, \<lparr>Event = reqEv 1 ''/a'', ReqInit = Some (requestInit 1 ''/a''),
                    RspInit = None, RspEnd = None, TimestampMs = 0\<rparr>)],
      requestCh = [], warnings = []\<rparr>"
  have h1: "nilID 1 \<in> liveSet ?c" by (simp add: liveSet_def)
  have h2: "GetHttpEvent (endEv 1 5) = Some (Http_ResponseEnd (Some (responseEnd 1 5)))"
    by (simp add: fixture_defs)
  have h3: "eventID nilAddressToString (endEv 1 5) = Some (nilID 1)"
    by (simp add: fixture_defs)
  have h4: "ProcessLoop nilAddressToString (Recv (endEv 1 5) # map Recv [reqEv 2 ''/b'']) ?c =
     (Blocked,
      \<lparr>outstandingRequests =
        [(nilID 1, \<lparr>Event = reqEv 1 ''/a'', ReqInit = Some (requestInit 1 ''/a''),
                    RspInit = None, RspEnd = None, TimestampMs = 0\<rparr>),
         (nilID 2, \<lparr>Event = reqEv 2 ''/b'', ReqInit = Some (requestInit 2 ''/b''),
                    RspInit = None, RspEnd = None, TimestampMs = 0\<rparr>)],
       requestCh = [\<lparr>Event = reqEv 1 ''/a'', ReqInit = Some (requestInit 1 ''/a''),
                    RspInit = None, RspEnd = Some (responseEnd 1 5), TimestampMs = 0\<rparr>],
       warnings = []\<rparr>, [])"
    by (simp add: handle_reqEv handle_endEv)
  have h5: "GetHttpEvent (endEv 1 9) = Some (Http_ResponseEnd (Some (responseEnd 1 9)))"
    by (simp add: fixture_defs)
  have h6: "eventID nilAddressToString (endEv 1 9) = Some (nilID 1)"
    by (simp add: fixture_defs)
  from C9_identity_stays_after_ResponseEnd [OF h1 h2 h3 h4 h5 h6] h1 h2 h3 h4 h5 h6
  show ?thesis by simp
qed

section \<open>Order of emission\<close>

text \<open>
  C3. The records on \<^verbatim>\<open>requestCh\<close> are, in order, those of the ResponseEnd events
  that completed an exchange, in the order these events arrived: the \<open>RspEnd\<close> fields of the
  records sent are the payloads of the events at the completing positions, taken in
  increasing position. The order of the RequestInit events plays no part.
\<close>

theorem C3_emission_in_completion_order:
  assumes "\<forall>e\<in>set evs. GetHttpEvent e \<noteq> None \<longrightarrow> eventID A e \<noteq> None"
  shows "\<exists>c. ProcessEvents A (map Recv evs) = (Blocked, c, []) \<and>
     map RspEnd (requestCh c) =
       map (\<lambda>k. responseEndOf (evs ! k)) (filter (completesAt A evs) [0..<length evs])"
proof -
  from ProcessLoop_total [OF assms, of newCorrelator] obtain c where
    run: "ProcessEvents A (map Recv evs) = (Blocked, c, [])"
    unfolding ProcessEvents_def by blast
  from RspEnds_of_run [OF run] run show ?thesis by blast
qed

theorem C3_emission_in_completion_order_witness:
  "(\<exists>c. ProcessEvents nilAddressToString
          (map Recv [reqEv 1 ''/a'', reqEv 2 ''/b'', endEv 2 5, endEv 1 9]) = (Blocked, c, []) \<and>
        requestCh c =
          [\<lparr>Event = reqEv 2 ''/b'', ReqInit = Some (requestInit 2 ''/b''),
            RspInit = None, RspEnd = Some (responseEnd 2 5), TimestampMs = 0\<rparr>,
           \<lparr>Event = reqEv 1 ''/a'', ReqInit = Some (requestInit 1 ''/a''),
            RspInit = None, RspEnd = Some (responseEnd 1 9), TimestampMs = 0\<rparr>] \<and>
        map RspEnd (requestCh c) =
          map (\<lambda>k. responseEndOf ([reqEv 1 ''/a'', reqEv 2 ''/b'', endEv 2 5, endEv 1 9] ! k))
            (filter (completesAt nilAddressToString
                       [reqEv 1 ''/a'', reqEv 2 ''/b'', endEv 2 5, endEv 1 9])
               [0..<length [reqEv 1 ''/a'', reqEv 2 ''/b'', endEv 2 5, endEv 1 9]])) \<and>
   filter (completesAt nilAddressToString [reqEv 1 ''/a'', reqEv 2 ''/b'', endEv 2 5, endEv 1 9])
     [0..<length [reqEv 1 ''/a'', reqEv 2 ''/b'', endEv 2 5, endEv 1 9]] = [2, 3] \<and>
   map (\<lambda>k. responseEndOf ([reqEv 1 ''/a'', reqEv 2 ''/b'', endEv 2 5, endEv 1 9] ! k)) [2, 3] =
     [Some (responseEnd 2 5), Some (responseEnd 1 9)]"
proof -
  let ?evs = "[reqEv 1 ''/a'', reqEv 2 ''/b'', endEv 2 5, endEv 1 9]"
  have h: "\<forall>e\<in>set ?evs. GetHttpEvent e \<noteq> None \<longrightarrow> eventID nilAddressToString e \<noteq> None"
    by simp
  from C3_emission_in_completion_order [OF h] obtain c where
    run: "ProcessEvents nilAddressToString (map Recv ?evs) = (Blocked, c, [])"
    and ord: "map RspEnd (requestCh c) =
       map (\<lambda>k. responseEndOf (?evs ! k))
         (filter (completesAt nilAddressToString ?evs) [0..<length ?evs])"
    by blast
  have sent: "requestCh c =
          [\<lparr>Event = reqEv 2 ''/b'', ReqInit = Some (requestInit 2 ''/b''),
            RspInit = None, RspEnd = Some (responseEnd 2 5), TimestampMs = 0\<rparr>,
           \<lparr>Event = reqEv 1 ''/a'', ReqInit = Some (requestInit 1 ''/a''),
            RspInit = None, RspEnd = Some (responseEnd 1 9), TimestampMs = 0\<rparr>]"
    using run by (auto simp: ProcessEvents_def newCorrelator_def handle_reqEv handle_endEv)
  have upt4: "[0..<length ?evs] = [0, 1, 2, 3]"
    by (simp add: upt_rec)
  have f: "filter (completesAt nilAddressToString ?evs) [0..<length ?evs] = [2, 3]"
    unfolding upt4 by (simp add: completesAt_def)
  have m: "map (\<lambda>k. responseEndOf (?evs ! k)) [2, 3] =
     [Some (responseEnd 2 5), Some (responseEnd 1 9)]"
    by simp
  from run ord sent f m show ?thesis by blast
qed

section \<open>Unknown streams\<close>

text \<open>
  A ResponseInit or ResponseEnd that carries an Id, with its StreamIdentity not in the live
  set, only logs a warning: nothing is sent, \<^verbatim>\<open>outstandingRequests\<close> is unchanged, and
  the loop goes on with the following rounds.
\<close>

lemma unknown_stream_dropped:
  assumes "GetHttpEvent e = Some (Http_ResponseInit rsi) \<or> GetHttpEvent e = Some (Http_ResponseEnd rse)"
    and "eventID A e = Some i"
    and "i \<notin> liveSet c"
  shows "\<exists>w. handleEvent A e c = Inr (c\<lparr>warnings := warnings c @ [w]\<rparr>) \<and>
             requestCh (c\<lparr>warnings := warnings c @ [w]\<rparr>) = requestCh c \<and>
             outstandingRequests (c\<lparr>warnings := warnings c @ [w]\<rparr>) = outstandingRequests c \<and>
             ProcessLoop A (Recv e # rounds) c =
               ProcessLoop A rounds (c\<lparr>warnings := warnings c @ [w]\<rparr>)"
proof -
  have none: "map_of (outstandingRequests c) i = None"
    using assms(3) by (simp add: map_of_eq_None_liveSet)
  from assms(1) show ?thesis
  proof
    assume "GetHttpEvent e = Some (Http_ResponseInit rsi)"
    then have "handleEvent A e c = Inr (c\<lparr>warnings := warnings c @ [UnknownResponseInit i]\<rparr>)"
      using handleEvent_ResponseInit [of e rsi A i c] assms(2) none by simp
    then show ?thesis by (intro exI [of _ "UnknownResponseInit i"]) simp
  next
    assume "GetHttpEvent e = Some (Http_ResponseEnd rse)"
    then have "handleEvent A e c = Inr (c\<lparr>warnings := warnings c @ [UnknownResponseEnd i]\<rparr>)"
      using handleEvent_ResponseEnd [of e rse A i c] assms(2) none by simp
    then show ?thesis by (intro exI [of _ "UnknownResponseEnd i"]) simp
  qed
qed

lemma unknown_ResponseEnd_dropped_example:
  "ProcessLoop nilAddressToString [Recv (endEv 7 5), Done]
     \<lparr>outstandingRequests =
        [(nilID 1, \<lparr>Event = reqEv 1 ''/a'', ReqInit = Some (requestInit 1 ''/a''),
                    RspInit = None, RspEnd = None, TimestampMs = 0\<rparr>)],
      requestCh = [], warnings = []\<rparr> =
     (Returned,
      \<lparr>outstandingRequests =
        [(nilID 1, \<lparr>Event = reqEv 1 ''/a'', ReqInit = Some (requestInit 1 ''/a''),
                    RspInit = None, RspEnd = None, TimestampMs = 0\<rparr>)],
       requestCh = [], warnings = [UnknownResponseEnd (nilID 7)]\<rparr>,
      [])"
  by (simp add: handle_endEv)

lemma unknown_ResponseInit_dropped_example:
  "ProcessLoop nilAddressToString [Recv (rspEv 7 200), Done]
     \<lparr>outstandingRequests =
        [(nilID 1, \<lparr>Event = reqEv 1 ''/a'', ReqInit = Some (requestInit 1 ''/a''),
                    RspInit = None, RspEnd = None, TimestampMs = 0\<rparr>)],
      requestCh = [], warnings = []\<rparr> =
     (Returned,
      \<lparr>outstandingRequests =
        [(nilID 1, \<lparr>Event = reqEv 1 ''/a'', ReqInit = Some (requestInit 1 ''/a''),
                    RspInit = None, RspEnd = None, TimestampMs = 0\<rparr>)],
       requestCh = [], warnings = [UnknownResponseInit (nilID 7)]\<rparr>,
      [])"
  by (simp add: handle_rspEv)

lemma response_without_Id:
  "GetHttpEvent rspEvNoId \<noteq> None" "eventID A rspEvNoId = None"
  "GetHttpEvent endEvNoId \<noteq> None" "eventID A endEvNoId = None"
  by (simp_all add: rspEvNoId_def endEvNoId_def httpEvent_def GetHttpEvent_def eventID_def
      ResponseInit_GetId_def ResponseEnd_GetId_def)

text \<open>
  C4. A ResponseInit or ResponseEnd whose message has a nil \<^verbatim>\<open>Id\<close> matches no open
  RequestInit, in any state. The loop calls the nil-safe \<^verbatim>\<open>GetId()\<close> and then reads the
  field \<^verbatim>\<open>.Stream\<close> through the nil pointer: it panics. No warning is logged, and the
  loop ends there, with the rounds after the event unconsumed.
\<close>

theorem C4_response_without_Id_panics:
  "handleEvent A endEvNoId c = Inl NilPointerDereference \<and>
   handleEvent A rspEvNoId c = Inl NilPointerDereference \<and>
   ProcessLoop A (Recv endEvNoId # rounds) c = (Panicked NilPointerDereference, c, rounds) \<and>
   ProcessLoop A (Recv rspEvNoId # rounds) c = (Panicked NilPointerDereference, c, rounds)"
proof -
  have e: "handleEvent A endEvNoId c = Inl NilPointerDereference"
    by (rule handleEvent_panic) (rule response_without_Id)+
  have r: "handleEvent A rspEvNoId c = Inl NilPointerDereference"
    by (rule handleEvent_panic) (rule response_without_Id)+
  from e r show ?thesis by simp
qed

section \<open>A second RequestInit\<close>

text \<open>
  C5. A RequestInit stores, under its StreamIdentity, a fresh record holding only the event
  and its RequestInit payload, whatever was stored there before. Two states that differ
  only in what they held under that identity behave alike from the RequestInit on: the
  same outcome, the same records sent. So no field of a discarded record is ever sent.
\<close>

theorem C5_RequestInit_starts_fresh:
  assumes "GetHttpEvent e = Some (Http_RequestInit ri)" and "eventID A e = Some i"
    and "\<forall>k. k \<noteq> i \<longrightarrow> map_of (outstandingRequests c1) k = map_of (outstandingRequests c2) k"
  shows "(\<exists>c1'. handleEvent A e c1 = Inr c1' \<and>
            map_of (outstandingRequests c1') i =
              Some \<lparr>Event = e, ReqInit = ri, RspInit = None, RspEnd = None, TimestampMs = 0\<rparr> \<and>
            requestCh c1' = requestCh c1) \<and>
         (\<exists>st d1 d2 rest out.
            ProcessLoop A (Recv e # rounds) c1 = (st, d1, rest) \<and>
            ProcessLoop A (Recv e # rounds) c2 = (st, d2, rest) \<and>
            requestCh d1 = requestCh c1 @ out \<and> requestCh d2 = requestCh c2 @ out)"
proof -
  let ?fresh = "\<lparr>Event = e, ReqInit = ri, RspInit = None, RspEnd = None, TimestampMs = 0\<rparr>"
  let ?d1 = "c1\<lparr>outstandingRequests := AList.update i ?fresh (outstandingRequests c1)\<rparr>"
  let ?d2 = "c2\<lparr>outstandingRequests := AList.update i ?fresh (outstandingRequests c2)\<rparr>"
  have s1: "handleEvent A e c1 = Inr ?d1" and s2: "handleEvent A e c2 = Inr ?d2"
    using handleEvent_RequestInit [OF assms(1) assms(2)] by simp_all
  have first: "\<exists>c1'. handleEvent A e c1 = Inr c1' \<and>
            map_of (outstandingRequests c1') i = Some ?fresh \<and> requestCh c1' = requestCh c1"
    using s1 by (simp add: AList.update_conv')
  have agree: "map_of (outstandingRequests ?d1) = map_of (outstandingRequests ?d2)"
    using assms(3) by (auto simp: AList.update_conv' fun_eq_iff)
  from ProcessLoop_agree [OF agree, of A rounds] obtain st d1 d2 rest out where
    "ProcessLoop A rounds ?d1 = (st, d1, rest)" "ProcessLoop A rounds ?d2 = (st, d2, rest)"
    "requestCh d1 = requestCh ?d1 @ out" "requestCh d2 = requestCh ?d2 @ out"
    by blast
  then have "ProcessLoop A (Recv e # rounds) c1 = (st, d1, rest) \<and>
            ProcessLoop A (Recv e # rounds) c2 = (st, d2, rest) \<and>
            requestCh d1 = requestCh c1 @ out \<and> requestCh d2 = requestCh c2 @ out"
    using s1 s2 by simp
  then have "\<exists>st d1 d2 rest out.
            ProcessLoop A (Recv e # rounds) c1 = (st, d1, rest) \<and>
            ProcessLoop A (Recv e # rounds) c2 = (st, d2, rest) \<and>
            requestCh d1 = requestCh c1 @ out \<and> requestCh d2 = requestCh c2 @ out"
    by blast
  with first show ?thesis by blast
qed

theorem C5_RequestInit_starts_fresh_witness:
  "GetHttpEvent (reqEv 1 ''/new'') = Some (Http_RequestInit (Some (requestInit 1 ''/new''))) \<and>
   eventID nilAddressToString (reqEv 1 ''/new'') = Some (nilID 1) \<and>
   ProcessLoop nilAddressToString [Recv (reqEv 1 ''/new''), Recv (endEv 1 5)]
     \<lparr>outstandingRequests =
        [(nilID 1, \<lparr>Event = reqEv 1 ''/old'', ReqInit = Some (requestInit 1 ''/old''),
                    RspInit = Some (responseInit 1 500), RspEnd = None, TimestampMs = 0\<rparr>)],
      requestCh = [], warnings = []\<rparr> =
     (Blocked,
      \<lparr>outstandingRequests =
         [(nilID 1, \<lparr>Event = reqEv 1 ''/new'', ReqInit = Some (requestInit 1 ''/new''),
                     RspInit = None, RspEnd = None, TimestampMs = 0\<rparr>)],
       requestCh =
         [\<lparr>Event = reqEv 1 ''/new'', ReqInit = Some (requestInit 1 ''/new''),
           RspInit = None, RspEnd = Some (responseEnd 1 5), TimestampMs = 0\<rparr>],
       warnings = []\<rparr>,
      []) \<and>
   ProcessLoop nilAddressToString [Recv (reqEv 1 ''/new''), Recv (endEv 1 5)] newCorrelator =
     (Blocked,
      \<lparr>outstandingRequests =
         [(nilID 1, \<lparr>Event = reqEv 1 ''/new'', ReqInit = Some (requestInit 1 ''/new''),
                     RspInit = None, RspEnd = None, TimestampMs = 0\<rparr>)],
       requestCh =
         [\<lparr>Event = reqEv 1 ''/new'', ReqInit = Some (requestInit 1 ''/new''),
           RspInit = None, RspEnd = Some (responseEnd 1 5), TimestampMs = 0\<rparr>],
       warnings = []\<rparr>,
      [])"
proof -
  let ?c1 = "\<lparr>outstandingRequests =
        [(nilID 1, \<lparr>Event = reqEv 1 ''/old'', ReqInit = Some (requestInit 1 ''/old''),
                    RspInit = Some (responseInit 1 500), RspEnd = None, TimestampMs = 0\<rparr>)],
      requestCh = [], warnings = []\<rparr>"
  have h1: "GetHttpEvent (reqEv 1 ''/new'') = Some (Http_RequestInit (Some (requestInit 1 ''/new'')))"
    by (simp add: fixture_defs)
  have h2: "eventID nilAddressToString (reqEv 1 ''/new'') = Some (nilID 1)"
    by simp
  have h3: "\<forall>k. k \<noteq> nilID 1 \<longrightarrow>
      map_of (outstandingRequests ?c1) k = map_of (outstandingRequests newCorrelator) k"
    by (simp add: newCorrelator_def)
  from C5_RequestInit_starts_fresh [OF h1 h2 h3, of "[Recv (endEv 1 5)]"] h1 h2
  show ?thesis
    by (simp add: newCorrelator_def handle_reqEv handle_endEv)
qed

section \<open>Interleaved identities\<close>

text \<open>
  C6. Two distinct StreamIdentities \<open>a\<close> and \<open>b\<close>, and any interleaving \<open>zs\<close> of a sequence
  \<open>xs\<close> of events of \<open>a\<close> with a sequence \<open>ys\<close> of events of \<open>b\<close>: the records sent on \<open>zs\<close>
  are an interleaving of the records sent on \<open>xs\<close> alone and on \<open>ys\<close> alone; those that
  belong to \<open>a\<close> are exactly the records sent on \<open>xs\<close> alone, those that belong to \<open>b\<close>
  exactly the records sent on \<open>ys\<close> alone; and the entries left under \<open>a\<close> and \<open>b\<close> are
  those of the separate runs.
\<close>

theorem C6_interleaving_independent:
  assumes "a \<noteq> b"
    and "\<forall>e\<in>set xs. eventID A e = Some a" and "\<forall>e\<in>set ys. eventID A e = Some b"
    and "zs \<in> shuffles xs ys"
  shows "\<exists>cx cy cz.
      ProcessEvents A (map Recv xs) = (Blocked, cx, []) \<and>
      ProcessEvents A (map Recv ys) = (Blocked, cy, []) \<and>
      ProcessEvents A (map Recv zs) = (Blocked, cz, []) \<and>
      requestCh cz \<in> shuffles (requestCh cx) (requestCh cy) \<and>
      filter (\<lambda>r. eventID A (Event r) = Some a) (requestCh cz) = requestCh cx \<and>
      filter (\<lambda>r. eventID A (Event r) = Some b) (requestCh cz) = requestCh cy \<and>
      map_of (outstandingRequests cz) a = map_of (outstandingRequests cx) a \<and>
      map_of (outstandingRequests cz) b = map_of (outstandingRequests cy) b"
proof -
  have empty: "map_of (outstandingRequests newCorrelator) = Map.empty"
    and nosent: "requestCh newCorrelator = []"
    by (simp_all add: newCorrelator_def)
  from solo_run [OF assms(2), of newCorrelator] obtain cx where
    rx: "ProcessLoop A (map Recv xs) newCorrelator = (Blocked, cx, [])"
    and sx: "requestCh cx = sentBy xs None"
    and mx: "map_of (outstandingRequests cx) = Map.empty(a := finalEntry xs None)"
    unfolding empty nosent by auto
  from solo_run [OF assms(3), of newCorrelator] obtain cy where
    ry: "ProcessLoop A (map Recv ys) newCorrelator = (Blocked, cy, [])"
    and sy: "requestCh cy = sentBy ys None"
    and my: "map_of (outstandingRequests cy) = Map.empty(b := finalEntry ys None)"
    unfolding empty nosent by auto
  from shuffled_run [OF assms, of newCorrelator] obtain cz where
    rz: "ProcessLoop A (map Recv zs) newCorrelator = (Blocked, cz, [])"
    and sz: "requestCh cz \<in> shuffles (sentBy xs None) (sentBy ys None)"
    and mz: "map_of (outstandingRequests cz) =
               Map.empty(a := finalEntry xs None, b := finalEntry ys None)"
    unfolding empty nosent by auto
  have ox: "\<forall>r\<in>set (sentBy xs None). eventID A (Event r) = Some a"
    using sentBy_owner [OF assms(2), of None] by simp
  have oy: "\<forall>r\<in>set (sentBy ys None). eventID A (Event r) = Some b"
    using sentBy_owner [OF assms(3), of None] by simp
  have fa: "filter (\<lambda>r. eventID A (Event r) = Some a) (requestCh cz) = sentBy xs None"
    using filter_shuffles_left [OF sz, of "\<lambda>r. eventID A (Event r) = Some a"] ox oy assms(1)
    by auto
  have fb: "filter (\<lambda>r. eventID A (Event r) = Some b) (requestCh cz) = sentBy ys None"
    using filter_shuffles_right [OF sz, of "\<lambda>r. eventID A (Event r) = Some b"] ox oy assms(1)
    by auto
  have "map_of (outstandingRequests cz) a = map_of (outstandingRequests cx) a"
    and "map_of (outstandingRequests cz) b = map_of (outstandingRequests cy) b"
    using mx my mz assms(1) by simp_all
  with rx ry rz sx sy sz fa fb show ?thesis
    unfolding ProcessEvents_def by auto
qed

theorem C6_interleaving_independent_witness:
  "nilID 1 \<noteq> nilID 2 \<and>
   [reqEv 1 ''/a'', reqEv 2 ''/b'', rspEv 1 200, endEv 2 7, endEv 1 5]
     \<in> shuffles [reqEv 1 ''/a'', rspEv 1 200, endEv 1 5] [reqEv 2 ''/b'', endEv 2 7] \<and>
   (\<exists>cx cy cz.
      ProcessEvents nilAddressToString (map Recv [reqEv 1 ''/a'', rspEv 1 200, endEv 1 5]) =
        (Blocked, cx, []) \<and>
      ProcessEvents nilAddressToString (map Recv [reqEv 2 ''/b'', endEv 2 7]) =
        (Blocked, cy, []) \<and>
      ProcessEvents nilAddressToString
        (map Recv [reqEv 1 ''/a'', reqEv 2 ''/b'', rspEv 1 200, endEv 2 7, endEv 1 5]) =
        (Blocked, cz, []) \<and>
      requestCh cx =
        [\<lparr>Event = reqEv 1 ''/a'', ReqInit = Some (requestInit 1 ''/a''),
          RspInit = Some (responseInit 1 200), RspEnd = Some (responseEnd 1 5),
          TimestampMs = 0\<rparr>] \<and>
      requestCh cy =
        [\<lparr>Event = reqEv 2 ''/b'', ReqInit = Some (requestInit 2 ''/b''),
          RspInit = None, RspEnd = Some (responseEnd 2 7), TimestampMs = 0\<rparr>] \<and>
      requestCh cz = requestCh cy @ requestCh cx \<and>
      requestCh cz \<in> shuffles (requestCh cx) (requestCh cy) \<and>
      filter (\<lambda>r. eventID nilAddressToString (Event r) = Some (nilID 1)) (requestCh cz) =
        requestCh cx \<and>
      filter (\<lambda>r. eventID nilAddressToString (Event r) = Some (nilID 2)) (requestCh cz) =
        requestCh cy)"
proof -
  let ?xs = "[reqEv 1 ''/a'', rspEv 1 200, endEv 1 5]"
  let ?ys = "[reqEv 2 ''/b'', endEv 2 7]"
  let ?zs = "[reqEv 1 ''/a'', reqEv 2 ''/b'', rspEv 1 200, endEv 2 7, endEv 1 5]"
  have h1: "nilID 1 \<noteq> nilID 2" by simp
  have h2: "\<forall>e\<in>set ?xs. eventID nilAddressToString e = Some (nilID 1)" by simp
  have h3: "\<forall>e\<in>set ?ys. eventID nilAddressToString e = Some (nilID 2)" by simp
  have h4: "?zs \<in> shuffles ?xs ?ys" by (simp add: Cons_in_shuffles_iff)
  from C6_interleaving_independent [OF h1 h2 h3 h4] obtain cx cy cz where
    rx: "ProcessEvents nilAddressToString (map Recv ?xs) = (Blocked, cx, [])"
    and ry: "ProcessEvents nilAddressToString (map Recv ?ys) = (Blocked, cy, [])"
    and rz: "ProcessEvents nilAddressToString (map Recv ?zs) = (Blocked, cz, [])"
    and sh: "requestCh cz \<in> shuffles (requestCh cx) (requestCh cy)"
    and fa: "filter (\<lambda>r. eventID nilAddressToString (Event r) = Some (nilID 1)) (requestCh cz) =
        requestCh cx"
    and fb: "filter (\<lambda>r. eventID nilAddressToString (Event r) = Some (nilID 2)) (requestCh cz) =
        requestCh cy"
    by blast
  have vx: "requestCh cx =
        [\<lparr>Event = reqEv 1 ''/a'', ReqInit = Some (requestInit 1 ''/a''),
          RspInit = Some (responseInit 1 200), RspEnd = Some (responseEnd 1 5),
          TimestampMs = 0\<rparr>]"
    using rx by (auto simp: ProcessEvents_def newCorrelator_def handle_reqEv handle_rspEv handle_endEv)
  have vy: "requestCh cy =
        [\<lparr>Event = reqEv 2 ''/b'', ReqInit = Some (requestInit 2 ''/b''),
          RspInit = None, RspEnd = Some (responseEnd 2 7), TimestampMs = 0\<rparr>]"
    using ry by (auto simp: ProcessEvents_def newCorrelator_def handle_reqEv handle_rspEv handle_endEv)
  have vz: "requestCh cz = requestCh cy @ requestCh cx"
    unfolding vx vy
    using rz by (auto simp: ProcessEvents_def newCorrelator_def handle_reqEv handle_rspEv handle_endEv)
  from h1 h4 rx ry rz sh fa fb vx vy vz show ?thesis by blast
qed

section \<open>Cancellation\<close>

text \<open>
  C8. Whatever events were processed before, and whatever identities are open in the
  state \<open>c'\<close> they led to: when the \<^verbatim>\<open>select\<close> takes the \<^verbatim>\<open>done\<close> case the loop
  returns at once. The state is \<open>c'\<close> as it was, so nothing more was sent and no entry was
  flushed, and the rounds after the cancellation are left unconsumed.
\<close>

theorem C8_cancellation_returns_immediately:
  assumes "ProcessLoop A (map Recv evs) c = (Blocked, c', [])"
  shows "ProcessLoop A (map Recv evs @ Done # rest) c = (Returned, c', rest)"
  using ProcessLoop_append [OF assms, of "Done # rest"] by simp

theorem C8_cancellation_returns_immediately_witness:
  "ProcessLoop nilAddressToString (map Recv [reqEv 1 ''/a'', reqEv 2 ''/b'']) newCorrelator =
     (Blocked,
      \<lparr>outstandingRequests =
         [(nilID 1, \<lparr>Event = reqEv 1 ''/a'', ReqInit = Some (requestInit 1 ''/a''),
                     RspInit = None, RspEnd = None, TimestampMs = 0\<rparr>),
          (nilID 2, \<lparr>Event = reqEv 2 ''/b'', ReqInit = Some (requestInit 2 ''/b''),
                     RspInit = None, RspEnd = None, TimestampMs = 0\<rparr>)],
       requestCh = [], warnings = []\<rparr>,
      []) \<and>
   ProcessLoop nilAddressToString
     (map Recv [reqEv 1 ''/a'', reqEv 2 ''/b''] @ Done # [Recv (endEv 1 5), Recv (endEv 2 6)])
     newCorrelator =
     (Returned,
      \<lparr>outstandingRequests =
         [(nilID 1, \<lparr>Event = reqEv 1 ''/a'', ReqInit = Some (requestInit 1 ''/a''),
                     RspInit = None, RspEnd = None, TimestampMs = 0\<rparr>),
          (nilID 2, \<lparr>Event = reqEv 2 ''/b'', ReqInit = Some (requestInit 2 ''/b''),
                     RspInit = None, RspEnd = None, TimestampMs = 0\<rparr>)],
       requestCh = [], warnings = []\<rparr>,
      [Recv (endEv 1 5), Recv (endEv 2 6)])"
proof -
  have h: "ProcessLoop nilAddressToString (map Recv [reqEv 1 ''/a'', reqEv 2 ''/b'']) newCorrelator =
     (Blocked,
      \<lparr>outstandingRequests =
         [(nilID 1, \<lparr>Event = reqEv 1 ''/a'', ReqInit = Some (requestInit 1 ''/a''),
                     RspInit = None, RspEnd = None, TimestampMs = 0\<rparr>),
          (nilID 2, \<lparr>Event = reqEv 2 ''/b'', ReqInit = Some (requestInit 2 ''/b''),
                     RspInit = None, RspEnd = None, TimestampMs = 0\<rparr>)],
       requestCh = [], warnings = []\<rparr>,
      [])"
    by (simp add: newCorrelator_def handle_reqEv)
  from C8_cancellation_returns_immediately [OF h] h show ?thesis by simp
qed

section \<open>The decoder\<close>

lemma RecvLoop_events:
  "RecvLoop E (map Inr evs @ reads) d =
     RecvLoop E reads (d\<lparr>eventCh := eventCh d @ map Some evs\<rparr>)"
  by (induction evs arbitrary: d) simp_all

lemma reads_cases:
  "(\<exists>evs. reads = map Inr evs) \<or> (\<exists>evs err rest. reads = map Inr evs @ Inl err # rest)"
proof (induction reads)
  case Nil
  then show ?case by simp
next
  case (Cons r reads)
  show ?case
  proof (cases r)
    case (Inl err)
    then have "r # reads = map Inr [] @ Inl err # reads" by simp
    then show ?thesis by (intro disjI2 exI [of _ "[]"] exI [of _ err] exI [of _ reads])
  next
    case (Inr ev)
    from Cons.IH show ?thesis
    proof
      assume "\<exists>evs. reads = map Inr evs"
      then obtain evs where "reads = map Inr evs" by blast
      then have "r # reads = map Inr (ev # evs)" using Inr by simp
      then show ?thesis by (intro disjI1 exI [of _ "ev # evs"])
    next
      assume "\<exists>evs err rest. reads = map Inr evs @ Inl err # rest"
      then obtain evs err rest where "reads = map Inr evs @ Inl err # rest" by blast
      then have "r # reads = map Inr (ev # evs) @ Inl err # rest" using Inr by simp
      then show ?thesis by (intro disjI2 exI [of _ "ev # evs"] exI [of _ err] exI [of _ rest])
    qed
  qed
qed

lemma HasSuffix_iff_suffix: "HasSuffix s x \<longleftrightarrow> suffix x s"
proof
  assume "HasSuffix s x"
  then have "s = take (length s - length x) s @ x"
    by (metis HasSuffix_def append_take_drop_id)
  then show "suffix x s" by (metis suffixI)
next
  assume "suffix x s"
  then obtain zs where "s = zs @ x" by (auto simp: suffix_def)
  then show "HasSuffix s x" by (simp add: HasSuffix_def)
qed

text \<open>
  C7. While decoding succeeds, \<^verbatim>\<open>RecvEvents\<close> publishes every event on
  \<^verbatim>\<open>eventCh\<close>, prints nothing, sends nothing on \<^verbatim>\<open>closing\<close> and does not return. At
  the first error it returns, after sending exactly one value on \<^verbatim>\<open>closing\<close>: on
  \<^verbatim>\<open>io.EOF\<close> it prints the line "Tap stream terminated", on an error whose message ends
  with \<^verbatim>\<open>ErrClosedResponseBody\<close> it prints nothing, on any other error it prints the
  message. Every sequence of decoding results is of one of these two forms.
\<close>

theorem C7_decoder_stops_only_on_error:
  "RecvEvents E (map Inr evs) =
     (Blocked, \<lparr>eventCh = map Some evs, stdout = [], closing = []\<rparr>, []) \<and>
   RecvEvents E (map Inr evs @ Inl err # rest) =
     (Returned,
      \<lparr>eventCh = map Some evs,
       stdout = (if err = EOF then [''Tap stream terminated'']
                 else if HasSuffix (Error err) E then [] else [Error err]),
       closing = [()]\<rparr>,
      rest) \<and>
   ((\<exists>evs'. reads = map Inr evs') \<or> (\<exists>evs' err' rest'. reads = map Inr evs' @ Inl err' # rest'))"
proof -
  have "RecvEvents E (map Inr evs @ []) =
     (Blocked, \<lparr>eventCh = map Some evs, stdout = [], closing = []\<rparr>, [])"
    unfolding RecvEvents_def RecvLoop_events by (simp add: newDecoder_def)
  moreover have "RecvEvents E (map Inr evs @ Inl err # rest) =
     (Returned,
      \<lparr>eventCh = map Some evs,
       stdout = (if err = EOF then [''Tap stream terminated'']
                 else if HasSuffix (Error err) E then [] else [Error err]),
       closing = [()]\<rparr>,
      rest)"
    unfolding RecvEvents_def RecvLoop_events by (simp add: newDecoder_def)
  ultimately show ?thesis using reads_cases [of reads] by simp
qed

end
